theory Spec2Isabelle
  imports Complex_Main "HOL-Library.AList"
begin

section \<open>Python values and exceptions\<close>

text \<open>
  The kernel of \<^verbatim>\<open>Kernel.py\<close> is dynamically typed: topics, listeners, settings and
  messages are arbitrary Python objects. \<open>pyval\<close> is the closed universe of the
  values the modelled operations inspect. A callable is \<open>PFn n\<close>, compared by identity
  \<open>n\<close>, when it leaves the kernel alone; a callable that calls back into the kernel
  is \<open>PCallback n cs\<close>: when it is called it makes the calls \<open>cs\<close>, in order,
  \<open>CallSignal c m\<close> for \<^verbatim>\<open>kernel.signal(c, m)\<close>, \<open>CallUnlisten a b\<close> for
  \<^verbatim>\<open>kernel.unlisten(a, b)\<close> and \<open>CallUnlistenSelf b\<close> for \<^verbatim>\<open>kernel.unlisten(f, b)\<close>
  with \<open>f\<close> the callable itself. Dictionary keys are compared structurally; keys in
  this development are strings and callables, so Python's identification of \<open>True\<close>,
  \<open>1\<close> and \<open>1.0\<close> as keys plays no part. Time stamps (\<^verbatim>\<open>time.time()\<close>) are
  read as reals.
\<close>

datatype py_error = KeyError | AttributeError | ValueError | TypeError

datatype pyval =
    PNone
  | PBool bool
  | PInt int
  | PFloat real
  | PStr string
  | PFn nat
  | PTuple "pyval list"
  | PCallback nat "kcall list"
and kcall =
    CallSignal pyval pyval
  | CallUnlisten pyval pyval
  | CallUnlistenSelf pyval

datatype py_type = T_str | T_int | T_float | T_bool

text \<open>\<^verbatim>\<open>isinstance(value, t)\<close>; \<^verbatim>\<open>bool\<close> is a subclass of \<^verbatim>\<open>int\<close>.\<close>

fun isinstance :: "pyval \<Rightarrow> py_type \<Rightarrow> bool" where
  "isinstance (PStr s) T_str = True"
| "isinstance (PInt i) T_int = True"
| "isinstance (PBool b) T_int = True"
| "isinstance (PFloat r) T_float = True"
| "isinstance (PBool b) T_bool = True"
| "isinstance v t = False"

section \<open>Thread states (lines 5-10)\<close>

definition THREAD_STATE_UNKNOWN :: int where "THREAD_STATE_UNKNOWN = - 1"
definition THREAD_STATE_UNSTARTED :: int where "THREAD_STATE_UNSTARTED = 0"
definition THREAD_STATE_STARTED :: int where "THREAD_STATE_STARTED = 1"
definition THREAD_STATE_PAUSED :: int where "THREAD_STATE_PAUSED = 2"
definition THREAD_STATE_FINISHED :: int where "THREAD_STATE_FINISHED = 3"
definition THREAD_STATE_ABORT :: int where "THREAD_STATE_ABORT = 10"

section \<open>KernelJob and Scheduler (lines 13-78)\<close>

text \<open>
  Job objects live in a store (\<open>heap\<close>) and are named by references; the scheduler's
  \<^verbatim>\<open>jobs\<close> list holds references, so \<^verbatim>\<open>jobs.remove(self)\<close> removes by identity.
  The field \<^verbatim>\<open>times\<close> is \<open>times_left\<close> here. Every job of the store belongs to the
  one scheduler, so the back reference \<^verbatim>\<open>scheduler\<close> is left implicit.
\<close>

record KernelJob =
  interval :: real
  last_run :: real
  next_run :: "real option"
  process :: nat
  args :: "pyval list"
  times_left :: "int option"
  paused :: bool
  executing :: bool

text \<open>
  The work items act on a world \<open>'w\<close> outside the scheduler, which also holds the clock.
  \<open>calls\<close> is a ghost trace: the jobs whose work item has been invoked, in order.
\<close>

record 'w Scheduler =
  state :: int
  jobs :: "nat list"
  heap :: "nat \<Rightarrow> KernelJob"
  next_ref :: nat
  world :: 'w
  calls :: "nat list"

definition blank_job :: KernelJob where
  "blank_job = \<lparr>interval = 0, last_run = 0, next_run = None, process = 0, args = [],
     times_left = None, paused = False, executing = False\<rparr>"

text \<open>\<^verbatim>\<open>KernelJob.__init__\<close> (lines 14-23); \<open>now\<close> is the value of \<^verbatim>\<open>time.time()\<close>.\<close>

definition KernelJob_init ::
  "real \<Rightarrow> nat \<Rightarrow> pyval list \<Rightarrow> real \<Rightarrow> int option \<Rightarrow> KernelJob" where
  "KernelJob_init now p a iv t =
     \<lparr>interval = iv, last_run = now, next_run = Some (now + iv), process = p, args = a,
      times_left = t, paused = False, executing = False\<rparr>"

text \<open>\<^verbatim>\<open>Scheduler.__init__\<close> (lines 44-48).\<close>

definition Scheduler_init :: "'w \<Rightarrow> 'w Scheduler" where
  "Scheduler_init w =
     \<lparr>state = THREAD_STATE_UNSTARTED, jobs = [], heap = (\<lambda>r. blank_job), next_ref = 0,
      world = w, calls = []\<rparr>"

text \<open>\<^verbatim>\<open>Scheduler.add_job\<close> (lines 50-53): a fresh job object, appended; returns it.\<close>

definition Scheduler_add_job ::
  "('w \<Rightarrow> real) \<Rightarrow> nat \<Rightarrow> pyval list \<Rightarrow> real \<Rightarrow> int option \<Rightarrow> 'w Scheduler
     \<Rightarrow> nat \<times> 'w Scheduler" where
  "Scheduler_add_job clock p a iv t s =
     (let r = next_ref s in
        (r, s\<lparr>jobs := jobs s @ [r],
               heap := (heap s)(r := KernelJob_init (clock (world s)) p a iv t),
               next_ref := Suc r\<rparr>))"

text \<open>The property \<^verbatim>\<open>scheduled\<close> (lines 25-27).\<close>

definition scheduled :: "('w \<Rightarrow> real) \<Rightarrow> 'w Scheduler \<Rightarrow> nat \<Rightarrow> bool" where
  "scheduled clock s j =
     (case next_run (heap s j) of None \<Rightarrow> False | Some t \<Rightarrow> t \<le> clock (world s))"

text \<open>\<^verbatim>\<open>list.remove\<close> on the job list: the first occurrence, or \<^verbatim>\<open>ValueError\<close>.\<close>

definition jobs_remove :: "nat \<Rightarrow> 'w Scheduler \<Rightarrow> py_error + 'w Scheduler" where
  "jobs_remove j s =
     (if j \<in> set (jobs s) then Inr (s\<lparr>jobs := remove1 j (jobs s)\<rparr>) else Inl ValueError)"

text \<open>
  \<^verbatim>\<open>KernelJob.run\<close> (lines 29-41). \<open>call s j\<close> is the world after the work item of
  job \<open>j\<close> has run; it may read the scheduler as it stands at the call (\<open>s\<close>), and
  is assumed to return normally and not to change the scheduler.
\<close>

definition KernelJob_run ::
  "('w Scheduler \<Rightarrow> nat \<Rightarrow> 'w) \<Rightarrow> ('w \<Rightarrow> real) \<Rightarrow> nat \<Rightarrow> 'w Scheduler
     \<Rightarrow> py_error + 'w Scheduler" where
  "KernelJob_run call clock j s =
     (if paused (heap s j) then Inr s
      else
        let s1 = s\<lparr>heap := (heap s)(j := (heap s j)\<lparr>next_run := None\<rparr>)\<rparr> in
        case (case times_left (heap s1 j) of
                None \<Rightarrow> Inr s1
              | Some n \<Rightarrow>
                  let s2 = s1\<lparr>heap := (heap s1)(j := (heap s1 j)\<lparr>times_left := Some (n - 1)\<rparr>)\<rparr>
                  in if n - 1 \<le> 0 then jobs_remove j s2 else Inr s2) of
          Inl e \<Rightarrow> Inl e
        | Inr s3 \<Rightarrow>
            let s4 = s3\<lparr>world := call s3 j, calls := calls s3 @ [j]\<rparr>;
                s5 = s4\<lparr>heap := (heap s4)(j := (heap s4 j)\<lparr>last_run := clock (world s4)\<rparr>)\<rparr>
            in Inr (s5\<lparr>heap := (heap s5)(j := (heap s5 j)
                        \<lparr>next_run := Some (last_run (heap s5 j) + interval (heap s5 j))\<rparr>)\<rparr>))"

text \<open>
  The loop \<^verbatim>\<open>for job in self.jobs: if job.scheduled: job.run()\<close> (lines 63-65). A Python
  list iterator keeps an index into the live list: each round it stops when the index
  has reached the current length, and otherwise takes the element at the index and
  advances.
\<close>

function for_jobs ::
  "('w Scheduler \<Rightarrow> nat \<Rightarrow> 'w) \<Rightarrow> ('w \<Rightarrow> real) \<Rightarrow> nat \<Rightarrow> 'w Scheduler
     \<Rightarrow> py_error + 'w Scheduler" where
  "for_jobs call clock i s =
     (if i < length (jobs s) then
        (if scheduled clock s (jobs s ! i) then
           (case KernelJob_run call clock (jobs s ! i) s of
              Inl e \<Rightarrow> Inl e
            | Inr s' \<Rightarrow> for_jobs call clock (Suc i) s')
         else for_jobs call clock (Suc i) s)
      else Inr s)"
  by pat_completeness auto
termination
proof (relation "measure (\<lambda>(call, clock, i, s). length (jobs s) - i)")
  show "wf (measure (\<lambda>(call, clock, i, s). length (jobs s) - i))"
    by simp
next
  fix call :: "'w Scheduler \<Rightarrow> nat \<Rightarrow> 'w" and clock :: "'w \<Rightarrow> real"
    and i :: nat and s s' :: "'w Scheduler"
  assume i: "i < length (jobs s)"
    and run: "KernelJob_run call clock (jobs s ! i) s = Inr s'"
  have "length (jobs s') \<le> length (jobs s)"
    using run
    by (auto simp: KernelJob_run_def jobs_remove_def Let_def length_remove1
        split: if_splits option.splits)
  with i show "((call, clock, Suc i, s'), (call, clock, i, s))
      \<in> measure (\<lambda>(call, clock, i, s). length (jobs s) - i)"
    by simp
next
  fix call :: "'w Scheduler \<Rightarrow> nat \<Rightarrow> 'w" and clock :: "'w \<Rightarrow> real"
    and i :: nat and s :: "'w Scheduler"
  assume "i < length (jobs s)"
  then show "((call, clock, Suc i, s), (call, clock, i, s))
      \<in> measure (\<lambda>(call, clock, i, s). length (jobs s) - i)"
    by simp
qed

declare for_jobs.simps [simp del]

text \<open>
  \<^verbatim>\<open>Scheduler.run\<close> (lines 55-66), the body of the worker thread, as a machine whose
  control points are the source lines; other threads may act between two steps. The
  sleeps of lines 58 and 62 leave the scheduler alone. \<open>Exited\<close> is the dead thread.
\<close>

datatype pc = L56 | L57 | L58 | L59 | L61 | L63 | L66 | Exited

definition Scheduler_run_step ::
  "('w Scheduler \<Rightarrow> nat \<Rightarrow> 'w) \<Rightarrow> ('w \<Rightarrow> real) \<Rightarrow> pc \<times> 'w Scheduler
     \<Rightarrow> pc \<times> 'w Scheduler" where
  "Scheduler_run_step call clock c =
     (let s = snd c in
      case fst c of
        L56 \<Rightarrow> (L57, s\<lparr>state := THREAD_STATE_STARTED\<rparr>)
      | L57 \<Rightarrow> if state s \<noteq> THREAD_STATE_ABORT then (L58, s) else (L66, s)
      | L58 \<Rightarrow> (L59, s)
      | L59 \<Rightarrow> if state s = THREAD_STATE_ABORT then (Exited, s) else (L61, s)
      | L61 \<Rightarrow> if state s = THREAD_STATE_PAUSED then (L61, s) else (L63, s)
      | L63 \<Rightarrow> (case for_jobs call clock 0 s of
                  Inl e \<Rightarrow> (Exited, s)
                | Inr s' \<Rightarrow> (L57, s'))
      | L66 \<Rightarrow> (Exited, s\<lparr>state := THREAD_STATE_FINISHED\<rparr>)
      | Exited \<Rightarrow> (Exited, s))"

text \<open>\<^verbatim>\<open>Scheduler.resume\<close>, \<^verbatim>\<open>pause\<close> and \<^verbatim>\<open>stop\<close> (lines 71-78).\<close>

definition Scheduler_resume :: "'w Scheduler \<Rightarrow> 'w Scheduler" where
  "Scheduler_resume s = s\<lparr>state := THREAD_STATE_STARTED\<rparr>"

definition Scheduler_pause :: "'w Scheduler \<Rightarrow> 'w Scheduler" where
  "Scheduler_pause s = s\<lparr>state := THREAD_STATE_PAUSED\<rparr>"

definition Scheduler_stop :: "'w Scheduler \<Rightarrow> 'w Scheduler" where
  "Scheduler_stop s = s\<lparr>state := THREAD_STATE_ABORT\<rparr>"

text \<open>
  What can happen to a scheduler whose worker is at a control point: a step of the
  worker, a call of \<^verbatim>\<open>resume\<close>, \<^verbatim>\<open>pause\<close>, \<^verbatim>\<open>stop\<close> or \<^verbatim>\<open>add_job\<close> from
  another thread, the assignment \<^verbatim>\<open>job.paused = b\<close>, or a change of the world
  (time passing).
\<close>

datatype 'w action =
    Worker
  | Resume
  | Pause
  | Stop
  | AddJob nat "pyval list" real "int option"
  | SetPaused nat bool
  | Elapse 'w

definition fire ::
  "('w Scheduler \<Rightarrow> nat \<Rightarrow> 'w) \<Rightarrow> ('w \<Rightarrow> real) \<Rightarrow> 'w action \<Rightarrow> pc \<times> 'w Scheduler
     \<Rightarrow> pc \<times> 'w Scheduler" where
  "fire call clock a c =
     (case a of
        Worker \<Rightarrow> Scheduler_run_step call clock c
      | Resume \<Rightarrow> (fst c, Scheduler_resume (snd c))
      | Pause \<Rightarrow> (fst c, Scheduler_pause (snd c))
      | Stop \<Rightarrow> (fst c, Scheduler_stop (snd c))
      | AddJob p a iv t \<Rightarrow> (fst c, snd (Scheduler_add_job clock p a iv t (snd c)))
      | SetPaused j b \<Rightarrow> (fst c, (snd c)\<lparr>heap := (heap (snd c))(j := (heap (snd c) j)\<lparr>paused := b\<rparr>)\<rparr>)
      | Elapse w \<Rightarrow> (fst c, (snd c)\<lparr>world := w\<rparr>))"

definition fires ::
  "('w Scheduler \<Rightarrow> nat \<Rightarrow> 'w) \<Rightarrow> ('w \<Rightarrow> real) \<Rightarrow> 'w action list \<Rightarrow> pc \<times> 'w Scheduler
     \<Rightarrow> pc \<times> 'w Scheduler" where
  "fires call clock as c = fold (fire call clock) as c"

text \<open>
  Bookkeeping for the statements about jobs: \<open>runs s j\<close> counts the invocations of
  the work item of job \<open>j\<close>; \<open>sched_ok\<close> says that the job list holds no reference
  twice and that every reference in use has been allocated, as holds for every
  scheduler built by \<^verbatim>\<open>add_job\<close>.
\<close>

definition runs :: "'w Scheduler \<Rightarrow> nat \<Rightarrow> nat" where
  "runs s j = count_list (calls s) j"

definition sched_ok :: "'w Scheduler \<Rightarrow> bool" where
  "sched_ok s =
     (distinct (jobs s) \<and> list_all (\<lambda>r. r < next_ref s) (jobs s)
      \<and> list_all (\<lambda>r. r < next_ref s) (calls s))"

fun sets_running :: "'w action \<Rightarrow> bool" where
  "sets_running Resume = True"
| "sets_running Pause = True"
| "sets_running a = False"

text \<open>
  The scheduler as the work item of job \<open>j\<close> finds it when it is invoked with \<open>m\<close>
  runs left after this one (lines 32-37 done), and the scheduler when
  \<^verbatim>\<open>KernelJob.run\<close> returns (lines 38-40 done).
\<close>

definition at_call :: "nat \<Rightarrow> int \<Rightarrow> 'w Scheduler \<Rightarrow> 'w Scheduler" where
  "at_call j m s =
     s\<lparr>heap := (heap s)(j := (heap s j)\<lparr>next_run := None, times_left := Some m\<rparr>),
       jobs := (if m \<le> 0 then remove1 j (jobs s) else jobs s)\<rparr>"

definition after_call ::
  "('w Scheduler \<Rightarrow> nat \<Rightarrow> 'w) \<Rightarrow> ('w \<Rightarrow> real) \<Rightarrow> nat \<Rightarrow> 'w Scheduler \<Rightarrow> 'w Scheduler" where
  "after_call call clock j v =
     v\<lparr>world := call v j, calls := calls v @ [j],
       heap := (heap v)(j := (heap v j)
         \<lparr>last_run := clock (call v j),
          next_run := Some (clock (call v j) + interval (heap v j))\<rparr>)\<rparr>"

text \<open>\<open>n\<close> executions of job \<open>j\<close> one after the other, each by \<^verbatim>\<open>KernelJob.run\<close>.\<close>

primrec executions ::
  "('w Scheduler \<Rightarrow> nat \<Rightarrow> 'w) \<Rightarrow> ('w \<Rightarrow> real) \<Rightarrow> nat \<Rightarrow> nat \<Rightarrow> 'w Scheduler
     \<Rightarrow> py_error + 'w Scheduler" where
  "executions call clock j 0 s = Inr s"
| "executions call clock j (Suc n) s =
     (case KernelJob_run call clock j s of
        Inl e \<Rightarrow> Inl e
      | Inr s' \<Rightarrow> executions call clock j n s')"

text \<open>
  What is known of a job registered with the finite count \<open>N\<close>, at any later moment.
\<close>

definition job_inv :: "int \<Rightarrow> nat \<Rightarrow> 'w Scheduler \<Rightarrow> bool" where
  "job_inv N j s =
     (sched_ok s \<and> j < next_ref s \<and> int (runs s j) \<le> N
      \<and> (j \<in> set (jobs s)) = (int (runs s j) < N)
      \<and> (if j \<in> set (jobs s) then times_left (heap s j) = Some (N - int (runs s j))
         else True))"

text \<open>
  Schedulers for the examples: the clock is the world itself, and work items leave it
  alone. \<open>two_jobs\<close> holds a one-shot job and an unlimited one, both registered at time
  0 with interval 1. \<open>paused_second\<close> holds a one-shot job due at time 5 and a paused
  unlimited job due at time 1, at time 2. \<open>counted_twice\<close> holds one job with count 2
  that a pass of the worker has run once.
\<close>

definition two_jobs :: "real Scheduler" where
  "two_jobs =
     snd (Scheduler_add_job (\<lambda>w. w) 1 [] 1 None
       (snd (Scheduler_add_job (\<lambda>w. w) 0 [] 1 (Some 1) (Scheduler_init 0))))"

definition paused_second :: "real Scheduler" where
  "paused_second =
     snd (fires (\<lambda>s j. world s) (\<lambda>w. w)
       [AddJob 0 [] 5 (Some 1), AddJob 1 [] 1 None, SetPaused 1 True, Elapse 2]
       (L63, Scheduler_init 0))"

definition counted_twice :: "real Scheduler" where
  "counted_twice =
     snd (fires (\<lambda>s j. world s) (\<lambda>w. w) [Elapse 5, Worker]
       (L63, snd (Scheduler_add_job (\<lambda>w. w) 0 [] 1 (Some 2) (Scheduler_init 0))))"

section \<open>Kernel (lines 92-509)\<close>

text \<open>
  Modules, loaders, listeners and the configuration store are objects outside the
  kernel. The model records every call the kernel makes on them in \<open>trace\<close>, in
  order. Modules, loaders and the store are assumed to return normally and not to call
  back into the kernel; a listener may call back (\<open>PCallback\<close>). A module is known by
  the methods it defines, a loader by what \<^verbatim>\<open>load_types()\<close> returns: triples of a
  description, a tuple of extensions and a mime type.
\<close>

datatype event =
    Invoke pyval pyval
  | ModuleCall nat string
  | LoaderLoad nat string pyval
  | Write pyval pyval
  | WriteInt pyval pyval
  | WriteFloat pyval pyval
  | WriteBool pyval pyval

record Module =
  module_id :: nat
  methods :: "string list"

record Loader =
  loader_id :: nat
  load_types :: "(string \<times> string list \<times> string) list"

text \<open>
  The dictionaries that are only looked up by key are maps; \<^verbatim>\<open>message_queue\<close> and
  \<^verbatim>\<open>loaders\<close>, which are iterated, are association lists in insertion order.
  \<open>config\<close> is \<open>False\<close> while \<^verbatim>\<open>self.config\<close> is \<^verbatim>\<open>None\<close>.
\<close>

record Kernel =
  config :: bool
  modules :: "pyval \<rightharpoonup> Module"
  loaders :: "(pyval \<times> Loader) list"
  listeners :: "pyval \<rightharpoonup> pyval list"
  last_message :: "pyval \<rightharpoonup> pyval"
  message_queue :: "(pyval \<times> pyval) list"
  is_queue_processing :: bool
  trace :: "event list"

text \<open>\<^verbatim>\<open>Kernel.__init__\<close> (lines 139-169) with \<^verbatim>\<open>config=None\<close>.\<close>

definition Kernel_init :: Kernel where
  "Kernel_init =
     \<lparr>config = False, modules = Map.empty, loaders = [], listeners = Map.empty,
      last_message = Map.empty, message_queue = [], is_queue_processing = False,
      trace = []\<rparr>"

text \<open>
  \<^verbatim>\<open>Kernel.signal\<close> (lines 177-180). The lock is held for the one assignment; in this
  sequential model acquiring and releasing it does nothing.
\<close>

definition Kernel_signal :: "Kernel \<Rightarrow> pyval \<Rightarrow> pyval \<Rightarrow> Kernel" where
  "Kernel_signal k code message =
     k\<lparr>message_queue := AList.update code message (message_queue k)\<rparr>"

text \<open>
  \<^verbatim>\<open>Kernel.unlisten\<close> (lines 380-383), with the parameters in the order of the source:
  \<^verbatim>\<open>def unlisten(self, listener, code)\<close>. \<^verbatim>\<open>list.remove\<close> raises when the element is
  not in the list.
\<close>

definition Kernel_unlisten :: "Kernel \<Rightarrow> pyval \<Rightarrow> pyval \<Rightarrow> py_error + Kernel" where
  "Kernel_unlisten k listener code =
     (case listeners k code of
        None \<Rightarrow> Inr k
      | Some ls \<Rightarrow>
          if listener \<in> set ls
          then Inr (k\<lparr>listeners := (listeners k)(code \<mapsto> remove1 listener ls)\<rparr>)
          else Inl ValueError)"

text \<open>
  Calling an object: \<^verbatim>\<open>f(message)\<close> is recorded, and a callback then makes its calls
  on the kernel, an exception of one of them ending the call; a value that is no
  callable raises.
\<close>

fun kcalls :: "pyval \<Rightarrow> kcall list \<Rightarrow> Kernel \<Rightarrow> py_error + Kernel" where
  "kcalls f [] k = Inr k"
| "kcalls f (CallSignal c m # cs) k = kcalls f cs (Kernel_signal k c m)"
| "kcalls f (CallUnlisten a b # cs) k =
     (case Kernel_unlisten k a b of Inl e \<Rightarrow> Inl e | Inr k' \<Rightarrow> kcalls f cs k')"
| "kcalls f (CallUnlistenSelf b # cs) k =
     (case Kernel_unlisten k f b of Inl e \<Rightarrow> Inl e | Inr k' \<Rightarrow> kcalls f cs k')"

definition call_value :: "pyval \<Rightarrow> pyval \<Rightarrow> Kernel \<Rightarrow> py_error + Kernel" where
  "call_value f message k =
     (case f of
        PFn n \<Rightarrow> Inr (k\<lparr>trace := trace k @ [Invoke f message]\<rparr>)
      | PCallback n cs \<Rightarrow> kcalls f cs (k\<lparr>trace := trace k @ [Invoke f message]\<rparr>)
      | _ \<Rightarrow> Inl TypeError)"

text \<open>\<^verbatim>\<open>self.run_later\<close> as \<^verbatim>\<open>__init__\<close> sets it (line 160): the direct call.\<close>

definition run_later :: "pyval \<Rightarrow> pyval \<Rightarrow> Kernel \<Rightarrow> py_error + Kernel" where
  "run_later listener message k = call_value listener message k"

text \<open>
  The listener list of a topic as it stands: the list object that the dictionary
  holds for the key, empty when there is none. \<^verbatim>\<open>listen\<close> and \<^verbatim>\<open>unlisten\<close> change
  this object in place and nothing replaces or deletes it, so the object that line 196
  binds is at every moment of the loop the one the dictionary holds.
\<close>

definition subscribers :: "Kernel \<Rightarrow> pyval \<Rightarrow> pyval list" where
  "subscribers k code = (case listeners k code of None \<Rightarrow> [] | Some ls \<Rightarrow> ls)"

text \<open>
  \<^verbatim>\<open>Kernel.process_queue\<close> (lines 187-200) and its two loops. The inner loop,
  \<^verbatim>\<open>for listener in listeners\<close>, iterates the live list by index, as Python does:
  a listener that unsubscribes during the loop shortens the list under the iterator.
  The queue that the outer loop iterates has been swapped out and is not changed.
\<close>

function for_listeners :: "pyval \<Rightarrow> nat \<Rightarrow> pyval \<Rightarrow> Kernel \<Rightarrow> py_error + Kernel" where
  "for_listeners code i message k =
     (if i < length (subscribers k code) then
        (case run_later (subscribers k code ! i) message k of
           Inl e \<Rightarrow> Inl e
         | Inr k' \<Rightarrow> for_listeners code (Suc i) message k')
      else Inr k)"
  by pat_completeness auto
termination
proof (relation "measure (\<lambda>(code, i, message, k). length (subscribers k code) - i)")
  show "wf (measure (\<lambda>(code, i, message, k). length (subscribers k code) - i))"
    by simp
next
  fix code message :: pyval and i :: nat and k k' :: Kernel
  assume i: "i < length (subscribers k code)"
    and run: "run_later (subscribers k code ! i) message k = Inr k'"
  have un: "length (subscribers k2 code) \<le> length (subscribers k1 code)"
    if "Kernel_unlisten k1 a b = Inr k2" for k1 k2 a b
    using that
    by (auto simp: Kernel_unlisten_def subscribers_def length_remove1
        split: option.splits if_splits)
  have calls: "length (subscribers k2 code) \<le> length (subscribers k1 code)"
    if "kcalls f cs k1 = Inr k2" for f cs k1 k2
    using that
  proof (induction f cs k1 rule: kcalls.induct)
    case (1 f k)
    then show ?case by simp
  next
    case (2 f c m cs k)
    then show ?case by (simp add: Kernel_signal_def subscribers_def)
  next
    case (3 f a b cs k)
    then obtain k3 where "Kernel_unlisten k a b = Inr k3" "kcalls f cs k3 = Inr k2"
      by (auto split: sum.splits)
    with 3(1)[of k3] un[of k a b k3] show ?case by simp
  next
    case (4 f b cs k)
    then obtain k3 where "Kernel_unlisten k f b = Inr k3" "kcalls f cs k3 = Inr k2"
      by (auto split: sum.splits)
    with 4(1)[of k3] un[of k f b k3] show ?case by simp
  qed
  have "length (subscribers k' code) \<le> length (subscribers k code)"
  proof (cases "subscribers k code ! i")
    case (PCallback n cs)
    with run have "kcalls (PCallback n cs) cs
        (k\<lparr>trace := trace k @ [Invoke (PCallback n cs) message]\<rparr>) = Inr k'"
      by (simp add: run_later_def call_value_def)
    from calls[OF this] show ?thesis by (simp add: subscribers_def)
  qed (use run in \<open>auto simp: run_later_def call_value_def subscribers_def\<close>)
  with i show "((code, Suc i, message, k'), (code, i, message, k))
      \<in> measure (\<lambda>(code, i, message, k). length (subscribers k code) - i)"
    by simp
qed

declare for_listeners.simps [simp del]

fun for_queue :: "(pyval \<times> pyval) list \<Rightarrow> Kernel \<Rightarrow> py_error + Kernel" where
  "for_queue [] k = Inr k"
| "for_queue ((code, message) # q) k =
     (case (case listeners k code of
              None \<Rightarrow> Inr k
            | Some ls \<Rightarrow> for_listeners code 0 message k) of
        Inl e \<Rightarrow> Inl e
      | Inr k' \<Rightarrow> for_queue q (k'\<lparr>last_message := (last_message k')(code \<mapsto> message)\<rparr>))"

definition Kernel_process_queue :: "Kernel \<Rightarrow> py_error + Kernel" where
  "Kernel_process_queue k =
     (let k1 = k\<lparr>is_queue_processing := True\<rparr>;
          queue = message_queue k1;
          k2 = k1\<lparr>message_queue := []\<rparr>
      in case for_queue queue k2 of
           Inl e \<Rightarrow> Inl e
         | Inr k3 \<Rightarrow> Inr (k3\<lparr>is_queue_processing := False\<rparr>))"

text \<open>\<^verbatim>\<open>Kernel.delegate_messages\<close> (lines 182-185).\<close>

definition Kernel_delegate_messages :: "Kernel \<Rightarrow> py_error + Kernel" where
  "Kernel_delegate_messages k =
     (if is_queue_processing k then Inr k else Kernel_process_queue k)"

text \<open>\<^verbatim>\<open>Kernel.listen\<close> (lines 370-378).\<close>

definition Kernel_listen :: "Kernel \<Rightarrow> pyval \<Rightarrow> pyval \<Rightarrow> py_error + Kernel" where
  "Kernel_listen k signal function =
     (let k1 = (case listeners k signal of
                  Some ls \<Rightarrow> k\<lparr>listeners := (listeners k)(signal \<mapsto> ls @ [function])\<rparr>
                | None \<Rightarrow> k\<lparr>listeners := (listeners k)(signal \<mapsto> [function])\<rparr>)
      in case last_message k1 signal of
           Some m \<Rightarrow> call_value function m k1
         | None \<Rightarrow> Inr k1)"

text \<open>\<^verbatim>\<open>Kernel.write_config\<close> (lines 261-269); every method of \<^verbatim>\<open>None\<close> is missing.\<close>

definition config_call :: "event \<Rightarrow> Kernel \<Rightarrow> py_error + Kernel" where
  "config_call ev k =
     (if config k then Inr (k\<lparr>trace := trace k @ [ev]\<rparr>) else Inl AttributeError)"

definition Kernel_write_config :: "Kernel \<Rightarrow> pyval \<Rightarrow> pyval \<Rightarrow> py_error + Kernel" where
  "Kernel_write_config k key v =
     (if isinstance v T_str then config_call (Write key v) k
      else if isinstance v T_int then config_call (WriteInt key v) k
      else if isinstance v T_float then config_call (WriteFloat key v) k
      else if isinstance v T_bool then config_call (WriteBool key v) k
      else Inr k)"

text \<open>
  \<^verbatim>\<open>Kernel.__setitem__\<close> (lines 202-211): \<^verbatim>\<open>kernel[signal, function] = None\<close> calls
  \<^verbatim>\<open>unlisten(signal, function)\<close>. Unpacking a tuple that is no pair raises.
\<close>

definition Kernel_setitem :: "Kernel \<Rightarrow> pyval \<Rightarrow> pyval \<Rightarrow> py_error + Kernel" where
  "Kernel_setitem k key v =
     (case key of
        PTuple ks \<Rightarrow>
          (case ks of
             [a, b] \<Rightarrow> if v = PNone then Kernel_unlisten k a b else Kernel_listen k a b
           | _ \<Rightarrow> Inl ValueError)
      | PStr s \<Rightarrow> Kernel_write_config k key v
      | _ \<Rightarrow> Inr k)"

text \<open>\<^verbatim>\<open>Kernel.add_module\<close> (lines 229-234) and \<^verbatim>\<open>add_loader\<close> (lines 236-237).\<close>

definition Kernel_add_module :: "Kernel \<Rightarrow> pyval \<Rightarrow> Module \<Rightarrow> Kernel" where
  "Kernel_add_module k module_name m =
     (let k1 = k\<lparr>modules := (modules k)(module_name \<mapsto> m)\<rparr>
      in if ''initialize'' \<in> set (methods m)
         then k1\<lparr>trace := trace k1 @ [ModuleCall (module_id m) ''initialize'']\<rparr>
         else k1)"

definition Kernel_add_loader :: "Kernel \<Rightarrow> pyval \<Rightarrow> Loader \<Rightarrow> Kernel" where
  "Kernel_add_loader k loader_name loader =
     k\<lparr>loaders := AList.update loader_name loader (loaders k)\<rparr>"

text \<open>
  The lifecycle operations (lines 420-454). A call that raises yields the exception
  together with the kernel as the exception leaves it. \<open>call_method k name meth\<close> is
  \<^verbatim>\<open>self.modules[name].meth()\<close>: the lookup raises \<^verbatim>\<open>KeyError\<close> for a missing key, the
  attribute access \<^verbatim>\<open>AttributeError\<close> for a missing method. \<open>except_AttributeError\<close>
  is the handler \<^verbatim>\<open>except AttributeError: pass\<close>.
\<close>

definition call_method :: "Kernel \<Rightarrow> pyval \<Rightarrow> string \<Rightarrow> (py_error \<times> Kernel) + Kernel" where
  "call_method k name meth =
     (case modules k name of
        None \<Rightarrow> Inl (KeyError, k)
      | Some m \<Rightarrow>
          if meth \<in> set (methods m)
          then Inr (k\<lparr>trace := trace k @ [ModuleCall (module_id m) meth]\<rparr>)
          else Inl (AttributeError, k))"

definition except_AttributeError ::
  "(py_error \<times> Kernel) + Kernel \<Rightarrow> (py_error \<times> Kernel) + Kernel" where
  "except_AttributeError r =
     (case r of
        Inl (e, k') \<Rightarrow> if e = AttributeError then Inr k' else Inl (e, k')
      | Inr k' \<Rightarrow> Inr k')"

definition Kernel_start :: "Kernel \<Rightarrow> pyval \<Rightarrow> (py_error \<times> Kernel) + Kernel" where
  "Kernel_start k thread_name = except_AttributeError (call_method k thread_name ''start'')"

definition Kernel_resume :: "Kernel \<Rightarrow> pyval \<Rightarrow> (py_error \<times> Kernel) + Kernel" where
  "Kernel_resume k thread_name = except_AttributeError (call_method k thread_name ''resume'')"

definition Kernel_pause :: "Kernel \<Rightarrow> pyval \<Rightarrow> (py_error \<times> Kernel) + Kernel" where
  "Kernel_pause k thread_name = except_AttributeError (call_method k thread_name ''pause'')"

definition Kernel_abort :: "Kernel \<Rightarrow> pyval \<Rightarrow> (py_error \<times> Kernel) + Kernel" where
  "Kernel_abort k thread_name = except_AttributeError (call_method k thread_name ''abort'')"

definition Kernel_reset :: "Kernel \<Rightarrow> pyval \<Rightarrow> (py_error \<times> Kernel) + Kernel" where
  "Kernel_reset k thread_name = except_AttributeError (call_method k thread_name ''reset'')"

definition Kernel_stop :: "Kernel \<Rightarrow> pyval \<Rightarrow> (py_error \<times> Kernel) + Kernel" where
  "Kernel_stop k thread_name = except_AttributeError (call_method k thread_name ''stop'')"

definition lifecycle_ops ::
  "((Kernel \<Rightarrow> pyval \<Rightarrow> (py_error \<times> Kernel) + Kernel) \<times> string) list" where
  "lifecycle_ops =
     [(Kernel_start, ''start''), (Kernel_pause, ''pause''), (Kernel_resume, ''resume''),
      (Kernel_abort, ''abort''), (Kernel_stop, ''stop''), (Kernel_reset, ''reset'')]"

text \<open>
  \<^verbatim>\<open>str.endswith\<close> with a tuple of suffixes. A \<^verbatim>\<open>str\<close> is the list of its
  characters.
\<close>

definition str_endswith :: "string \<Rightarrow> string \<Rightarrow> bool" where
  "str_endswith s suffix =
     (length suffix \<le> length s \<and> drop (length s - length suffix) s = suffix)"

definition endswith :: "string \<Rightarrow> string list \<Rightarrow> bool" where
  "endswith s suffixes = list_ex (str_endswith s) suffixes"

text \<open>
  \<^verbatim>\<open>Kernel.load\<close> (lines 470-475). \<^verbatim>\<open>str.lower\<close> is the parameter \<open>lower\<close>: nothing
  is assumed of it, so what is proved holds for Python's own, on every text. The
  result is the returned value, \<^verbatim>\<open>True\<close> or (falling off the end) \<^verbatim>\<open>None\<close>, with the
  kernel. The inner loop yields \<open>None\<close> when it ran to its end without returning.
\<close>

fun for_load_types ::
  "(string \<Rightarrow> string) \<Rightarrow> Loader \<Rightarrow> (string \<times> string list \<times> string) list \<Rightarrow> string
     \<Rightarrow> pyval \<Rightarrow> Kernel \<Rightarrow> (pyval \<times> Kernel) option" where
  "for_load_types lower loader [] pathname g k = None"
| "for_load_types lower loader ((description, extensions, mimetype) # ts) pathname g k =
     (if endswith (lower pathname) extensions
      then Some (PBool True, k\<lparr>trace := trace k @ [LoaderLoad (loader_id loader) pathname g]\<rparr>)
      else for_load_types lower loader ts pathname g k)"

fun for_loaders ::
  "(string \<Rightarrow> string) \<Rightarrow> (pyval \<times> Loader) list \<Rightarrow> string \<Rightarrow> pyval \<Rightarrow> Kernel
     \<Rightarrow> pyval \<times> Kernel" where
  "for_loaders lower [] pathname g k = (PNone, k)"
| "for_loaders lower ((loader_name, loader) # ls) pathname g k =
     (case for_load_types lower loader (load_types loader) pathname g k of
        Some r \<Rightarrow> r
      | None \<Rightarrow> for_loaders lower ls pathname g k)"

definition Kernel_load ::
  "(string \<Rightarrow> string) \<Rightarrow> Kernel \<Rightarrow> string \<Rightarrow> pyval \<Rightarrow> pyval \<times> Kernel" where
  "Kernel_load lower k pathname g = for_loaders lower (loaders k) pathname g k"

text \<open>
  For comparison with \<^verbatim>\<open>Kernel.load\<close>: the match as the specification words it, the
  end of the path name against an extension list without regard to case on either
  side; and the candidates in the order the two loops visit them.
\<close>

definition spec_matches :: "(string \<Rightarrow> string) \<Rightarrow> string \<Rightarrow> string list \<Rightarrow> bool" where
  "spec_matches lower pathname extensions = endswith (lower pathname) (map lower extensions)"

definition candidates :: "Kernel \<Rightarrow> (Loader \<times> string list) list" where
  "candidates k =
     concat (map (\<lambda>(loader_name, loader).
                    map (\<lambda>(description, extensions, mimetype). (loader, extensions))
                      (load_types loader))
                 (loaders k))"

text \<open>
  What \<^verbatim>\<open>str.lower\<close> does on ASCII text, for the examples, which hold no other
  characters: the letters A to Z go to a to z.
\<close>

definition ascii_lower :: "string \<Rightarrow> string" where
  "ascii_lower s =
     map (\<lambda>c. case map_of (zip ''ABCDEFGHIJKLMNOPQRSTUVWXYZ'' ''abcdefghijklmnopqrstuvwxyz'') c of
                Some d \<Rightarrow> d
              | None \<Rightarrow> c) s"

text \<open>
  For the statements about the signal bus: the calls a queue gives rise to, in order,
  when no listener list changes during the flush; \<open>quiet\<close> callables, which do not
  call \<^verbatim>\<open>unlisten\<close> (they may call \<^verbatim>\<open>signal\<close>); and the condition that what is
  subscribed to the topics of a queue is quiet.
\<close>

definition deliveries :: "Kernel \<Rightarrow> (pyval \<times> pyval) list \<Rightarrow> event list" where
  "deliveries k q =
     concat (map (\<lambda>(code, message). map (\<lambda>l. Invoke l message) (subscribers k code)) q)"

fun signals_only :: "kcall \<Rightarrow> bool" where
  "signals_only (CallSignal c m) = True"
| "signals_only (CallUnlisten a b) = False"
| "signals_only (CallUnlistenSelf b) = False"

definition quiet :: "pyval \<Rightarrow> bool" where
  "quiet f =
     (case f of PFn n \<Rightarrow> True | PCallback n cs \<Rightarrow> list_all signals_only cs | _ \<Rightarrow> False)"

definition pending_quiet :: "Kernel \<Rightarrow> (pyval \<times> pyval) list \<Rightarrow> bool" where
  "pending_quiet k q = list_all (\<lambda>(code, message). list_all quiet (subscribers k code)) q"

text \<open>
  Kernels for the examples: one with a module that defines only \<^verbatim>\<open>start\<close>; one with
  two listeners on the topic \<^verbatim>\<open>t\<close>, a third on \<^verbatim>\<open>u\<close>, and a message pending for
  \<^verbatim>\<open>u\<close>; one in which the message 7 has been delivered for \<^verbatim>\<open>u\<close>; one
  with a configuration store; one with a loader that advertises the
  extension \<^verbatim>\<open>SVG\<close> in upper case, and one with two loaders for lower-case
  extensions. Further, kernels in which one listener is subscribed to \<^verbatim>\<open>t\<close> once and
  twice; one in which the first listener of \<^verbatim>\<open>t\<close> unsubscribes itself when it is
  called and the second leaves the kernel alone; one in which the only listener of
  \<^verbatim>\<open>t\<close> signals 9 for \<^verbatim>\<open>u\<close> when it is called; and a third loader, for
  \<^verbatim>\<open>dxf\<close> files.
\<close>

definition one_module :: Kernel where
  "one_module =
     Kernel_add_module Kernel_init (PStr ''M'') \<lparr>module_id = 1, methods = [''start'']\<rparr>"

definition three_listeners :: Kernel where
  "three_listeners =
     Kernel_signal
       (Kernel_init\<lparr>listeners := [PStr ''t'' \<mapsto> [PFn 1, PFn 2], PStr ''u'' \<mapsto> [PFn 3]]\<rparr>)
       (PStr ''u'') (PInt 7)"

definition after_flush :: Kernel where
  "after_flush =
     Kernel_init\<lparr>listeners := [PStr ''u'' \<mapsto> [PFn 3]], last_message := [PStr ''u'' \<mapsto> PInt 7]\<rparr>"

definition once_subscribed :: Kernel where
  "once_subscribed = Kernel_init\<lparr>listeners := [PStr ''t'' \<mapsto> [PFn 1]]\<rparr>"

definition twice_subscribed :: Kernel where
  "twice_subscribed = Kernel_init\<lparr>listeners := [PStr ''t'' \<mapsto> [PFn 1, PFn 1]]\<rparr>"

definition leaves_when_called :: Kernel where
  "leaves_when_called =
     Kernel_init\<lparr>listeners :=
       [PStr ''t'' \<mapsto> [PCallback 1 [CallUnlistenSelf (PStr ''t'')], PFn 2]]\<rparr>"

definition signals_when_called :: Kernel where
  "signals_when_called =
     Kernel_init\<lparr>listeners :=
       [PStr ''t'' \<mapsto> [PCallback 1 [CallSignal (PStr ''u'') (PInt 9)]]]\<rparr>"

definition dxf_loader :: Loader where
  "dxf_loader = \<lparr>loader_id = 3, load_types = [(''DXF'', [''dxf''], ''image/vnd.dxf'')]\<rparr>"

definition with_config :: Kernel where
  "with_config = Kernel_init\<lparr>config := True\<rparr>"

definition upper_loader :: Kernel where
  "upper_loader =
     Kernel_add_loader Kernel_init (PStr ''svg'')
       \<lparr>loader_id = 1, load_types = [(''Scalable Vector Graphics'', [''SVG''], ''image/svg+xml'')]\<rparr>"

definition two_loaders :: Kernel where
  "two_loaders =
     Kernel_add_loader
       (Kernel_add_loader Kernel_init (PStr ''svg'')
          \<lparr>loader_id = 1, load_types = [(''Scalable Vector Graphics'', [''svg''], ''image/svg+xml'')]\<rparr>)
       (PStr ''image'')
       \<lparr>loader_id = 2, load_types = [(''Portable Network Graphics'', [''png''], ''image/png''),
                                    (''JPEG'', [''jpg'', ''jpeg''], ''image/jpeg'')]\<rparr>"

section \<open>Scheduler: executing a job\<close>

lemma KernelJob_run_paused: "paused (heap s j) \<Longrightarrow> KernelJob_run call clock j s = Inr s"
  by (simp add: KernelJob_run_def)

lemma KernelJob_run_unlimited:
  assumes "\<not> paused (heap s j)" and "times_left (heap s j) = None"
  shows "KernelJob_run call clock j s =
    Inr (after_call call clock j (s\<lparr>heap := (heap s)(j := (heap s j)\<lparr>next_run := None\<rparr>)\<rparr>))"
  using assms by (simp add: KernelJob_run_def after_call_def Let_def)

lemma KernelJob_run_counted:
  assumes "\<not> paused (heap s j)" and "times_left (heap s j) = Some n"
    and "1 < n \<or> j \<in> set (jobs s)"
  shows "KernelJob_run call clock j s = Inr (after_call call clock j (at_call j (n - 1) s))"
proof (cases "n - 1 \<le> 0")
  case True
  with assms have "j \<in> set (jobs s)" by auto
  with True assms(1,2) show ?thesis
    by (simp add: KernelJob_run_def after_call_def at_call_def jobs_remove_def Let_def)
next
  case False
  with assms(1,2) show ?thesis
    by (simp add: KernelJob_run_def after_call_def at_call_def jobs_remove_def Let_def)
qed

lemma KernelJob_run_cases:
  assumes "KernelJob_run call clock j s = Inr s'"
  obtains (paused) "paused (heap s j)" "s' = s"
  | (unlimited) "\<not> paused (heap s j)" "times_left (heap s j) = None"
      "s' = after_call call clock j (s\<lparr>heap := (heap s)(j := (heap s j)\<lparr>next_run := None\<rparr>)\<rparr>)"
  | (counted) n where "\<not> paused (heap s j)" "times_left (heap s j) = Some n"
      "1 < n \<or> j \<in> set (jobs s)"
      "s' = after_call call clock j (at_call j (n - 1) s)"
proof (cases "paused (heap s j)")
  case True
  with assms have "s' = s" by (simp add: KernelJob_run_paused)
  with True show ?thesis by (rule paused)
next
  case np: False
  show ?thesis
  proof (cases "times_left (heap s j)")
    case None
    with np assms
    have "s' = after_call call clock j (s\<lparr>heap := (heap s)(j := (heap s j)\<lparr>next_run := None\<rparr>)\<rparr>)"
      by (simp add: KernelJob_run_unlimited)
    with np None show ?thesis by (rule unlimited)
  next
    case (Some n)
    have mem: "1 < n \<or> j \<in> set (jobs s)"
    proof (cases "n - 1 \<le> 0")
      case True
      with assms np Some have "j \<in> set (jobs s)"
        by (simp add: KernelJob_run_def jobs_remove_def Let_def split: if_splits)
      then show ?thesis ..
    next
      case False
      then show ?thesis by simp
    qed
    with np Some assms have "s' = after_call call clock j (at_call j (n - 1) s)"
      by (simp add: KernelJob_run_counted)
    with np Some mem show ?thesis by (rule counted)
  qed
qed

lemma KernelJob_run_state: "KernelJob_run call clock j s = Inr s' \<Longrightarrow> state s' = state s"
  by (erule KernelJob_run_cases) (simp_all add: after_call_def at_call_def)

lemma KernelJob_run_in_list:
  "j \<in> set (jobs s) \<Longrightarrow> \<exists>s'. KernelJob_run call clock j s = Inr s'"
  by (auto simp: KernelJob_run_def jobs_remove_def Let_def split: option.splits)

lemma for_jobs_state: "for_jobs call clock i s = Inr s' \<Longrightarrow> state s' = state s"
proof (induction call clock i s rule: for_jobs.induct)
  case (1 call clock i s)
  show ?case
  proof (cases "i < length (jobs s)")
    case False
    with "1.prems" show ?thesis by (simp add: for_jobs.simps)
  next
    case lt: True
    show ?thesis
    proof (cases "scheduled clock s (jobs s ! i)")
      case False
      with lt "1.prems" have "for_jobs call clock (Suc i) s = Inr s'"
        by (simp add: for_jobs.simps)
      with "1.IH"(2) lt False show ?thesis by simp
    next
      case True
      with lt "1.prems" obtain s1 where
        r: "KernelJob_run call clock (jobs s ! i) s = Inr s1"
        and f: "for_jobs call clock (Suc i) s1 = Inr s'"
        by (auto simp: for_jobs.simps[of call clock i s] split: sum.splits)
      from "1.IH"(1)[OF lt True r f] KernelJob_run_state[OF r] show ?thesis by simp
    qed
  qed
qed

lemma for_jobs_returns: "\<exists>s'. for_jobs call clock i s = Inr s'"
proof (induction call clock i s rule: for_jobs.induct)
  case (1 call clock i s)
  show ?case
  proof (cases "i < length (jobs s)")
    case False
    then show ?thesis by (simp add: for_jobs.simps)
  next
    case lt: True
    show ?thesis
    proof (cases "scheduled clock s (jobs s ! i)")
      case False
      with lt "1.IH"(2) show ?thesis by (simp add: for_jobs.simps[of call clock i s])
    next
      case True
      from lt have "jobs s ! i \<in> set (jobs s)" by simp
      then obtain s1 where r: "KernelJob_run call clock (jobs s ! i) s = Inr s1"
        using KernelJob_run_in_list by blast
      from "1.IH"(1)[OF lt True r] lt True r show ?thesis
        by (simp add: for_jobs.simps[of call clock i s])
    qed
  qed
qed


lemma after_call_proj:
  "jobs (after_call call clock j v) = jobs v"
  "calls (after_call call clock j v) = calls v @ [j]"
  "next_ref (after_call call clock j v) = next_ref v"
  "state (after_call call clock j v) = state v"
  "world (after_call call clock j v) = call v j"
  "k \<noteq> j \<Longrightarrow> heap (after_call call clock j v) k = heap v k"
  "times_left (heap (after_call call clock j v) k) = times_left (heap v k)"
  "paused (heap (after_call call clock j v) k) = paused (heap v k)"
  by (simp_all add: after_call_def)

lemma at_call_proj:
  "jobs (at_call j m s) = (if m \<le> 0 then remove1 j (jobs s) else jobs s)"
  "calls (at_call j m s) = calls s"
  "next_ref (at_call j m s) = next_ref s"
  "state (at_call j m s) = state s"
  "world (at_call j m s) = world s"
  "k \<noteq> j \<Longrightarrow> heap (at_call j m s) k = heap s k"
  "times_left (heap (at_call j m s) j) = Some m"
  "paused (heap (at_call j m s) k) = paused (heap s k)"
  by (simp_all add: at_call_def)

lemma sched_ok_run:
  assumes ok: "sched_ok s" and k: "k \<in> set (jobs s)"
    and r: "KernelJob_run call clock k s = Inr s'"
  shows "sched_ok s'"
proof -
  from ok k have kb: "k < next_ref s"
    by (auto simp: sched_ok_def list_all_iff)
  from r show ?thesis
  proof (cases rule: KernelJob_run_cases)
    case paused
    with ok show ?thesis by simp
  next
    case unlimited
    with ok kb show ?thesis
      by (simp add: sched_ok_def after_call_proj)
  next
    case (counted n)
    have "list_all (\<lambda>r. r < next_ref s) (remove1 k (jobs s))"
      using ok by (auto simp: sched_ok_def list_all_iff dest: notin_set_remove1)
    with counted ok kb show ?thesis
      by (simp add: sched_ok_def after_call_proj at_call_proj)
  qed
qed

lemma job_inv_run:
  assumes inv: "job_inv N j s" and k: "k \<in> set (jobs s)"
    and r: "KernelJob_run call clock k s = Inr s'"
  shows "job_inv N j s'"
proof -
  from inv have ok: "sched_ok s" by (simp add: job_inv_def)
  then have d: "distinct (jobs s)" by (simp add: sched_ok_def)
  have ok': "sched_ok s'" using ok k r by (rule sched_ok_run)
  from r show ?thesis
  proof (cases rule: KernelJob_run_cases)
    case paused
    with inv show ?thesis by simp
  next
    case unlimited
    have "k \<noteq> j"
    proof
      assume "k = j"
      with inv k unlimited(2) show False by (simp add: job_inv_def)
    qed
    with inv ok' unlimited(3) show ?thesis
      by (simp add: job_inv_def runs_def after_call_proj)
  next
    case (counted n)
    show ?thesis
    proof (cases "k = j")
      case False
      then have "(j \<in> set (remove1 k (jobs s))) = (j \<in> set (jobs s))"
        by simp
      with False inv ok' counted(4) show ?thesis
        by (simp add: job_inv_def runs_def after_call_proj at_call_proj)
    next
      case True
      with inv k counted(2) have n: "n = N - int (runs s j)" and lt: "int (runs s j) < N"
        by (simp_all add: job_inv_def)
      from d have "j \<notin> set (remove1 j (jobs s))" by simp
      with True inv ok' counted(4) n lt k show ?thesis
        by (auto simp: job_inv_def runs_def after_call_proj at_call_proj)
    qed
  qed
qed

lemma job_inv_for_jobs:
  "job_inv N j s \<Longrightarrow> for_jobs call clock i s = Inr s' \<Longrightarrow> job_inv N j s'"
proof (induction call clock i s rule: for_jobs.induct)
  case (1 call clock i s)
  show ?case
  proof (cases "i < length (jobs s)")
    case False
    with "1.prems" show ?thesis by (simp add: for_jobs.simps)
  next
    case lt: True
    show ?thesis
    proof (cases "scheduled clock s (jobs s ! i)")
      case False
      with lt "1.prems" have "for_jobs call clock (Suc i) s = Inr s'"
        by (simp add: for_jobs.simps)
      with "1.IH"(2) lt False "1.prems"(1) show ?thesis by simp
    next
      case True
      with lt "1.prems" obtain s1 where
        r: "KernelJob_run call clock (jobs s ! i) s = Inr s1"
        and f: "for_jobs call clock (Suc i) s1 = Inr s'"
        by (auto simp: for_jobs.simps[of call clock i s] split: sum.splits)
      from lt have "jobs s ! i \<in> set (jobs s)" by simp
      with "1.prems"(1) have "job_inv N j s1" using r by (rule job_inv_run)
      with "1.IH"(1)[OF lt True r] f show ?thesis by simp
    qed
  qed
qed

lemma job_inv_add_other:
  assumes "job_inv N j s"
  shows "job_inv N j (snd (Scheduler_add_job clock p a iv t s))"
  using assms
  by (auto simp: job_inv_def sched_ok_def runs_def Scheduler_add_job_def Let_def list_all_iff
      intro: less_SucI)

lemma job_inv_add:
  assumes ok: "sched_ok s" and N: "1 \<le> N"
  shows "job_inv N (next_ref s) (snd (Scheduler_add_job clock p a iv (Some N) s))"
proof -
  have "count_list (calls s) (next_ref s) = 0"
    using ok by (auto simp: sched_ok_def list_all_iff count_list_0_iff)
  with ok N show ?thesis
    by (auto simp: job_inv_def sched_ok_def runs_def Scheduler_add_job_def Let_def
        list_all_iff KernelJob_init_def intro: less_SucI)
qed

lemma job_inv_fire:
  assumes "job_inv N j (snd c)"
  shows "job_inv N j (snd (fire call clock a c))"
proof (cases a)
  case Worker
  show ?thesis
  proof (cases "fst c")
    case L63
    obtain s' where f: "for_jobs call clock 0 (snd c) = Inr s'"
      using for_jobs_returns by blast
    with assms have "job_inv N j s'" by (rule job_inv_for_jobs[rotated -1, rotated])
    with Worker L63 f show ?thesis
      by (simp add: fire_def Scheduler_run_step_def)
  next
    case L56
    with Worker assms show ?thesis
      by (simp add: fire_def Scheduler_run_step_def job_inv_def sched_ok_def runs_def)
  next
    case L66
    with Worker assms show ?thesis
      by (simp add: fire_def Scheduler_run_step_def job_inv_def sched_ok_def runs_def)
  qed (use Worker assms in \<open>simp_all add: fire_def Scheduler_run_step_def Let_def\<close>)
next
  case (AddJob p a' iv t)
  with assms show ?thesis by (simp add: fire_def job_inv_add_other)
next
  case (SetPaused k b)
  with assms show ?thesis
    by (auto simp: fire_def job_inv_def sched_ok_def runs_def split: if_splits)
next
  case (Elapse w)
  with assms show ?thesis
    by (simp add: fire_def job_inv_def sched_ok_def runs_def)
qed (use assms in \<open>simp_all add: fire_def job_inv_def sched_ok_def runs_def
       Scheduler_resume_def Scheduler_pause_def Scheduler_stop_def\<close>)

lemma job_inv_fires:
  "job_inv N j (snd c) \<Longrightarrow> job_inv N j (snd (fires call clock as c))"
  unfolding fires_def
  by (induction as arbitrary: c) (simp_all add: job_inv_fire)

lemma executions_to_the_end:
  assumes "job_inv N j s" and "j \<in> set (jobs s)" and "\<not> paused (heap s j)"
    and "n = nat (N - int (runs s j))"
  shows "\<exists>s'. executions call clock j n s = Inr s' \<and> int (runs s' j) = N
           \<and> j \<notin> set (jobs s')"
  using assms
proof (induction n arbitrary: s)
  case 0
  then show ?case by (simp add: job_inv_def)
next
  case (Suc n)
  from Suc.prems(1,2) have t: "times_left (heap s j) = Some (N - int (runs s j))"
    by (simp add: job_inv_def)
  from Suc.prems(2) have "1 < N - int (runs s j) \<or> j \<in> set (jobs s)" ..
  with Suc.prems(3) t have r: "KernelJob_run call clock j s
      = Inr (after_call call clock j (at_call j (N - int (runs s j) - 1) s))"
    by (rule KernelJob_run_counted)
  define s1 where "s1 = after_call call clock j (at_call j (N - int (runs s j) - 1) s)"
  from r have r1: "KernelJob_run call clock j s = Inr s1" by (simp add: s1_def)
  from Suc.prems(1,2) r1 have inv1: "job_inv N j s1" by (rule job_inv_run)
  have runs1: "runs s1 j = Suc (runs s j)"
    by (simp add: s1_def runs_def after_call_proj at_call_proj)
  have np1: "\<not> paused (heap s1 j)"
    using Suc.prems(3) by (simp add: s1_def after_call_proj at_call_proj)
  have n: "n = nat (N - int (runs s1 j))"
    using Suc.prems(4) runs1 by simp
  show ?case
  proof (cases "j \<in> set (jobs s1)")
    case True
    from Suc.IH[OF inv1 True np1 n] r1 show ?thesis by simp
  next
    case False
    with inv1 have "int (runs s1 j) = N" by (simp add: job_inv_def)
    with n have "n = 0" by simp
    with r1 False \<open>int (runs s1 j) = N\<close> show ?thesis by simp
  qed
qed

section \<open>Scheduler: the run state\<close>

lemma abort_fire:
  assumes "state (snd c) = THREAD_STATE_ABORT
           \<or> (state (snd c) = THREAD_STATE_FINISHED \<and> fst c = Exited)"
    and "fst c \<noteq> L56" and "\<not> sets_running a"
  shows "(state (snd (fire call clock a c)) = THREAD_STATE_ABORT
          \<or> (state (snd (fire call clock a c)) = THREAD_STATE_FINISHED
              \<and> fst (fire call clock a c) = Exited))
         \<and> fst (fire call clock a c) \<noteq> L56"
proof (cases a)
  case Worker
  show ?thesis
  proof (cases "fst c")
    case L63
    obtain s' where f: "for_jobs call clock 0 (snd c) = Inr s'"
      using for_jobs_returns by blast
    from for_jobs_state[OF f] assms Worker L63 f show ?thesis
      by (simp add: fire_def Scheduler_run_step_def)
  qed (use Worker assms in \<open>simp_all add: fire_def Scheduler_run_step_def Let_def\<close>)
next
  case (AddJob p a' iv t)
  with assms show ?thesis by (simp add: fire_def Scheduler_add_job_def Let_def)
qed (use assms in \<open>simp_all add: fire_def Scheduler_stop_def\<close>)

lemma abort_fires:
  assumes "state (snd c) = THREAD_STATE_ABORT
           \<or> (state (snd c) = THREAD_STATE_FINISHED \<and> fst c = Exited)"
    and "fst c \<noteq> L56" and "\<not> list_ex sets_running as"
  shows "state (snd (fires call clock as c)) = THREAD_STATE_ABORT
          \<or> (state (snd (fires call clock as c)) = THREAD_STATE_FINISHED
              \<and> fst (fires call clock as c) = Exited)"
  using assms unfolding fires_def
proof (induction as arbitrary: c)
  case Nil
  then show ?case by simp
next
  case (Cons a as)
  from Cons.prems have "\<not> sets_running a" and rest: "\<not> list_ex sets_running as"
    by simp_all
  with Cons.prems(1,2) have
    "(state (snd (fire call clock a c)) = THREAD_STATE_ABORT
          \<or> (state (snd (fire call clock a c)) = THREAD_STATE_FINISHED
              \<and> fst (fire call clock a c) = Exited))
         \<and> fst (fire call clock a c) \<noteq> L56"
    by (intro abort_fire)
  with Cons.IH[of "fire call clock a c"] rest show ?case by simp
qed

lemma finished_by_worker:
  assumes "state (snd (fire call clock a (q, t))) = THREAD_STATE_FINISHED"
    and "state t \<noteq> THREAD_STATE_FINISHED"
  shows "a = Worker \<and> q = L66"
proof (cases a)
  case Worker
  show ?thesis
  proof (cases q)
    case L63
    obtain s' where f: "for_jobs call clock 0 t = Inr s'"
      using for_jobs_returns by blast
    from for_jobs_state[OF f] assms Worker L63 f show ?thesis
      by (simp add: fire_def Scheduler_run_step_def)
  qed (use Worker assms in \<open>simp_all add: fire_def Scheduler_run_step_def Let_def
         THREAD_STATE_FINISHED_def THREAD_STATE_STARTED_def split: if_splits\<close>)
next
  case (AddJob p a' iv t')
  with assms show ?thesis by (simp add: fire_def Scheduler_add_job_def Let_def)
qed (use assms in \<open>simp_all add: fire_def Scheduler_stop_def Scheduler_resume_def
       Scheduler_pause_def THREAD_STATE_FINISHED_def THREAD_STATE_STARTED_def
       THREAD_STATE_PAUSED_def THREAD_STATE_ABORT_def\<close>)

lemma reaches_L66:
  "(fst (Scheduler_run_step call clock (q, t)) = L66)
     = (q = L57 \<and> state t = THREAD_STATE_ABORT)"
proof (cases q)
  case L63
  obtain s' where f: "for_jobs call clock 0 t = Inr s'"
    using for_jobs_returns by blast
  with L63 show ?thesis by (simp add: Scheduler_run_step_def)
qed (simp_all add: Scheduler_run_step_def Let_def)

section \<open>Scheduler: the claims\<close>

lemmas demo_simps =
  Scheduler_add_job_def Scheduler_init_def Let_def for_jobs.simps scheduled_def
  KernelJob_run_def KernelJob_init_def jobs_remove_def fires_def fire_def
  Scheduler_run_step_def THREAD_STATE_ABORT_def THREAD_STATE_UNSTARTED_def
  THREAD_STATE_STARTED_def THREAD_STATE_PAUSED_def THREAD_STATE_FINISHED_def

text \<open>
  Claim C3: within one pass of the worker over the job list, every job that is due is
  executed, and a job that removes itself during its own execution does not cause a
  later due job to be skipped. The code does not do this. In \<open>two_jobs\<close> at time 5
  both jobs are due and neither is paused; job 0 has one run left. The pass of lines
  63-65 runs job 0, which removes itself from the live list, so the list is \<open>[1]\<close>
  when the iterator moves to index 1 and stops: job 1 is not invoked in this pass and
  is still due after it.
\<close>

theorem tick_skips_job_after_self_removal:
  "jobs two_jobs = [0, 1]
   \<and> times_left (heap two_jobs 0) = Some 1
   \<and> scheduled (\<lambda>w. w) (two_jobs\<lparr>world := 5\<rparr>) 0
   \<and> scheduled (\<lambda>w. w) (two_jobs\<lparr>world := 5\<rparr>) 1
   \<and> \<not> paused (heap two_jobs 1)
   \<and> map_sum id (\<lambda>s'. (calls s', jobs s', scheduled (\<lambda>w. w) s' 1))
        (for_jobs (\<lambda>s j. world s) (\<lambda>w. w) 0 (two_jobs\<lparr>world := 5\<rparr>))
      = Inr ([0], [1], True)"
  by (simp add: two_jobs_def demo_simps)

text \<open>
  Claim C9: a paused job's \<^verbatim>\<open>run()\<close> returns at once without any effect, so a
  paused due job remains due and runs on the first tick after it is unpaused. The
  first half holds (\<open>KernelJob_run_paused\<close>); the conclusion drawn from it does not
  hold in the code. In \<open>paused_second\<close> job 1 is due and paused and job 0 is not yet
  due. The worker's pass at time 2 invokes nothing. Job 1 is then unpaused and stays
  due. In the next pass, at time 6, job 0 is due, runs and removes itself, and the
  iterator stops before it reaches job 1: the first tick after the job was unpaused
  does not run it.
\<close>

theorem unpaused_job_skipped_on_next_tick:
  "jobs paused_second = [0, 1]
   \<and> paused (heap paused_second 1)
   \<and> scheduled (\<lambda>w. w) paused_second 1
   \<and> \<not> scheduled (\<lambda>w. w) paused_second 0
   \<and> (let c = fires (\<lambda>s j. world s) (\<lambda>w. w) [Worker, SetPaused 1 False, Elapse 6,
                 Worker, Worker, Worker, Worker] (L63, paused_second)
      in fst c = L63 \<and> calls (snd c) = [] \<and> jobs (snd c) = [0, 1]
         \<and> \<not> paused (heap (snd c) 1) \<and> scheduled (\<lambda>w. w) (snd c) 1)
   \<and> (let c = fires (\<lambda>s j. world s) (\<lambda>w. w) [Worker, SetPaused 1 False, Elapse 6,
                 Worker, Worker, Worker, Worker, Worker] (L63, paused_second)
      in fst c = L57 \<and> calls (snd c) = [0] \<and> jobs (snd c) = [1]
         \<and> \<not> paused (heap (snd c) 1) \<and> scheduled (\<lambda>w. w) (snd c) 1)"
  by (simp add: paused_second_def demo_simps)

text \<open>
  Claim C2 as stated fails: after \<^verbatim>\<open>stop()\<close> the state is Aborted, and a following
  \<^verbatim>\<open>resume()\<close> makes it Started, a following \<^verbatim>\<open>pause()\<close> makes it Paused.
\<close>

theorem stop_then_resume_counterexample:
  "state (Scheduler_stop (Scheduler_init ())) = THREAD_STATE_ABORT
   \<and> state (Scheduler_resume (Scheduler_stop (Scheduler_init ()))) = THREAD_STATE_STARTED
   \<and> state (Scheduler_pause (Scheduler_stop (Scheduler_init ()))) = THREAD_STATE_PAUSED
   \<and> THREAD_STATE_STARTED \<noteq> THREAD_STATE_ABORT
   \<and> THREAD_STATE_PAUSED \<noteq> THREAD_STATE_ABORT"
  by (simp add: Scheduler_stop_def Scheduler_resume_def Scheduler_pause_def
      THREAD_STATE_ABORT_def THREAD_STATE_STARTED_def THREAD_STATE_PAUSED_def)

text \<open>
  Claim C2, amended: once the scheduler's state is Aborted and the worker is past the
  first statement of \<^verbatim>\<open>run()\<close>, no sequence of worker steps, \<^verbatim>\<open>stop()\<close> calls, job
  registrations, assignments to a job's \<^verbatim>\<open>paused\<close> flag and clock changes moves it
  out of Aborted, except that the worker marks Finished as it exits; from Aborted,
  Finished is written only by the worker at line 66, which it reaches only from the
  loop test of line 57 observing Aborted. \<^verbatim>\<open>stop()\<close> keeps Aborted. \<^verbatim>\<open>resume()\<close> and
  \<^verbatim>\<open>pause()\<close> are unconditional assignments, so after \<^verbatim>\<open>stop()\<close> they do change
  the state to Started and Paused, and so does the first statement of \<^verbatim>\<open>run()\<close>.
\<close>

theorem abort_left_only_by_pause_resume:
  assumes "state s = THREAD_STATE_ABORT" and "p \<noteq> L56"
    and "\<not> list_ex sets_running as"
  shows "(state (snd (fires call clock as (p, s))) = THREAD_STATE_ABORT
          \<or> (state (snd (fires call clock as (p, s))) = THREAD_STATE_FINISHED
              \<and> fst (fires call clock as (p, s)) = Exited))
    \<and> (state (snd (fire call clock a (q, s))) = THREAD_STATE_FINISHED
          \<longrightarrow> a = Worker \<and> q = L66)
    \<and> ((fst (Scheduler_run_step call clock (q, t)) = L66)
          = (q = L57 \<and> state t = THREAD_STATE_ABORT))
    \<and> state (Scheduler_stop s) = THREAD_STATE_ABORT
    \<and> state (Scheduler_resume s) = THREAD_STATE_STARTED
    \<and> state (Scheduler_pause s) = THREAD_STATE_PAUSED
    \<and> state (snd (Scheduler_run_step call clock (L56, s))) = THREAD_STATE_STARTED"
proof -
  have closed: "state (snd (fires call clock as (p, s))) = THREAD_STATE_ABORT
          \<or> (state (snd (fires call clock as (p, s))) = THREAD_STATE_FINISHED
              \<and> fst (fires call clock as (p, s)) = Exited)"
    using assms by (intro abort_fires) simp_all
  have "state s \<noteq> THREAD_STATE_FINISHED"
    using assms(1) by (simp add: THREAD_STATE_ABORT_def THREAD_STATE_FINISHED_def)
  then have fin: "state (snd (fire call clock a (q, s))) = THREAD_STATE_FINISHED
          \<longrightarrow> a = Worker \<and> q = L66"
    using finished_by_worker by blast
  have ops: "state (Scheduler_stop s) = THREAD_STATE_ABORT"
    "state (Scheduler_resume s) = THREAD_STATE_STARTED"
    "state (Scheduler_pause s) = THREAD_STATE_PAUSED"
    "state (snd (Scheduler_run_step call clock (L56, s))) = THREAD_STATE_STARTED"
    by (simp_all add: Scheduler_stop_def Scheduler_resume_def Scheduler_pause_def
        Scheduler_run_step_def)
  from closed fin reaches_L66 ops show ?thesis by blast
qed

text \<open>
  An aborted scheduler whose worker is at the loop test: the worker leaves the loop,
  \<^verbatim>\<open>stop()\<close> is called again, and the worker marks Finished and exits.
\<close>

theorem abort_left_only_by_pause_resume_witness:
  "state (Scheduler_stop (Scheduler_init (0::real))) = THREAD_STATE_ABORT
   \<and> L57 \<noteq> L56
   \<and> \<not> list_ex sets_running [Worker, Stop, Elapse (1::real), Worker]
   \<and> state (snd (fires (\<lambda>s j. world s) (\<lambda>w. w) [Worker, Stop, Elapse 1, Worker]
        (L57, Scheduler_stop (Scheduler_init 0)))) = THREAD_STATE_FINISHED
   \<and> fst (fires (\<lambda>s j. world s) (\<lambda>w. w) [Worker, Stop, Elapse 1, Worker]
        (L57, Scheduler_stop (Scheduler_init 0))) = Exited
   \<and> state (Scheduler_resume (Scheduler_stop (Scheduler_init (0::real))))
       = THREAD_STATE_STARTED"
proof -
  have a: "state (Scheduler_stop (Scheduler_init (0::real))) = THREAD_STATE_ABORT"
    by (simp add: Scheduler_stop_def)
  have b: "L57 \<noteq> L56" by simp
  have c: "\<not> list_ex sets_running [Worker, Stop, Elapse (1::real), Worker]" by simp
  have d: "state (snd (fires (\<lambda>s j. world s) (\<lambda>w. w) [Worker, Stop, Elapse 1, Worker]
        (L57, Scheduler_stop (Scheduler_init (0::real))))) \<noteq> THREAD_STATE_ABORT"
    by (simp add: demo_simps Scheduler_stop_def)
  from abort_left_only_by_pause_resume [OF a b c, of "\<lambda>s j. world s" "\<lambda>w. w"] a b c d
  show ?thesis by simp
qed

text \<open>
  Claim C4: a job registered with a finite count \<open>N \<ge> 1\<close> and never paused has its
  work item invoked exactly \<open>N\<close> times, and is absent from the job list after the
  \<open>N\<close>-th execution. At every moment after the registration, whatever the worker and
  the other threads have done, the work item has been invoked at most \<open>N\<close> times and
  the job is in the list exactly as long as it has been invoked fewer than \<open>N\<close>
  times. While it is in the list and not paused, an execution is \<open>after_call\<close> of
  \<open>at_call\<close>: it sets \<^verbatim>\<open>next_run\<close> to \<^verbatim>\<open>None\<close>, decrements the count, removes the
  job from the list when the count has reached zero, then invokes the work item (which
  finds the scheduler in that state), then sets \<^verbatim>\<open>last_run\<close> to the time after the
  call and \<^verbatim>\<open>next_run\<close> to that plus the interval; it is one more invocation; and
  the executions that are left, one after the other, all return and end with \<open>N\<close>
  invocations and the job out of the list. The job starts in the list, not paused,
  with no invocation.
\<close>

theorem counted_job_runs_N_times:
  assumes "sched_ok s0" and "1 \<le> N"
    and "Scheduler_add_job clock p a iv (Some N) s0 = (j, s1)"
    and "s = snd (fires call clock as (c, s1))"
  shows "int (runs s j) \<le> N
    \<and> (j \<in> set (jobs s)) = (int (runs s j) < N)
    \<and> (j \<in> set (jobs s) \<and> \<not> paused (heap s j) \<longrightarrow>
         KernelJob_run call clock j s
           = Inr (after_call call clock j (at_call j (N - int (runs s j) - 1) s))
         \<and> runs (after_call call clock j (at_call j (N - int (runs s j) - 1) s)) j
           = Suc (runs s j)
         \<and> (\<exists>s'. executions call clock j (nat (N - int (runs s j))) s = Inr s'
               \<and> int (runs s' j) = N \<and> j \<notin> set (jobs s')))
    \<and> runs s1 j = 0 \<and> j \<in> set (jobs s1) \<and> \<not> paused (heap s1 j)"
proof -
  from assms(3) have j: "j = next_ref s0"
    and s1: "s1 = snd (Scheduler_add_job clock p a iv (Some N) s0)"
    by (auto simp: Scheduler_add_job_def Let_def)
  from assms(1,2) have inv1: "job_inv N j s1"
    unfolding j s1 by (rule job_inv_add)
  then have "job_inv N j (snd (c, s1))" by simp
  then have "job_inv N j (snd (fires call clock as (c, s1)))" by (rule job_inv_fires)
  with assms(4) have inv: "job_inv N j s" by simp
  then have bound: "int (runs s j) \<le> N"
    and pres: "(j \<in> set (jobs s)) = (int (runs s j) < N)"
    by (simp_all add: job_inv_def)
  have fresh: "j \<in> set (jobs s1)" "\<not> paused (heap s1 j)"
    and count: "times_left (heap s1 j) = Some N"
    unfolding j s1 by (simp_all add: Scheduler_add_job_def Let_def KernelJob_init_def)
  with inv1 have zero: "runs s1 j = 0"
    by (simp add: job_inv_def)
  have step: "KernelJob_run call clock j s
           = Inr (after_call call clock j (at_call j (N - int (runs s j) - 1) s))
         \<and> runs (after_call call clock j (at_call j (N - int (runs s j) - 1) s)) j
           = Suc (runs s j)
         \<and> (\<exists>s'. executions call clock j (nat (N - int (runs s j))) s = Inr s'
               \<and> int (runs s' j) = N \<and> j \<notin> set (jobs s'))"
    if mem: "j \<in> set (jobs s)" and np: "\<not> paused (heap s j)"
  proof -
    from inv mem have t: "times_left (heap s j) = Some (N - int (runs s j))"
      by (simp add: job_inv_def)
    from mem have "1 < N - int (runs s j) \<or> j \<in> set (jobs s)" ..
    with np t have "KernelJob_run call clock j s
           = Inr (after_call call clock j (at_call j (N - int (runs s j) - 1) s))"
      by (rule KernelJob_run_counted)
    moreover have "\<exists>s'. executions call clock j (nat (N - int (runs s j))) s = Inr s'
               \<and> int (runs s' j) = N \<and> j \<notin> set (jobs s')"
      using inv mem np refl by (rule executions_to_the_end)
    ultimately show ?thesis by (simp add: runs_def after_call_proj at_call_proj)
  qed
  from bound pres step zero fresh show ?thesis by blast
qed

text \<open>
  A job with count 2 after one pass of the worker: run once and still listed; the next
  execution, the one that is left, is the second invocation and removes it.
\<close>

theorem counted_job_runs_N_times_witness:
  "sched_ok (Scheduler_init (0::real)) \<and> (1::int) \<le> 2
   \<and> runs counted_twice 0 = 1
   \<and> 0 \<in> set (jobs counted_twice)
   \<and> \<not> paused (heap counted_twice 0)
   \<and> KernelJob_run (\<lambda>s j. world s) (\<lambda>w. w) 0 counted_twice
       = Inr (after_call (\<lambda>s j. world s) (\<lambda>w. w) 0 (at_call 0 0 counted_twice))
   \<and> runs (after_call (\<lambda>s j. world s) (\<lambda>w. w) 0 (at_call 0 0 counted_twice)) 0 = 2
   \<and> 0 \<notin> set (jobs (after_call (\<lambda>s j. world s) (\<lambda>w. w) 0 (at_call 0 0 counted_twice)))
   \<and> map_sum id (\<lambda>s'. (runs s' 0, jobs s'))
        (executions (\<lambda>s j. world s) (\<lambda>w. w) 0 1 counted_twice) = Inr (2, [])"
proof -
  have ok: "sched_ok (Scheduler_init (0::real))"
    by (simp add: sched_ok_def Scheduler_init_def)
  have N: "(1::int) \<le> 2" by simp
  have add: "Scheduler_add_job (\<lambda>w. w) 0 [] 1 (Some 2) (Scheduler_init (0::real))
      = (0, snd (Scheduler_add_job (\<lambda>w. w) 0 [] 1 (Some 2) (Scheduler_init 0)))"
    by (simp add: Scheduler_add_job_def Scheduler_init_def Let_def)
  have s: "counted_twice = snd (fires (\<lambda>s j. world s) (\<lambda>w. w) [Elapse 5, Worker]
       (L63, snd (Scheduler_add_job (\<lambda>w. w) 0 [] 1 (Some 2) (Scheduler_init 0))))"
    by (simp add: counted_twice_def)
  have r: "runs counted_twice 0 = 1" "jobs counted_twice = [0]"
    "\<not> paused (heap counted_twice 0)"
    by (simp_all add: counted_twice_def runs_def demo_simps)
  from counted_job_runs_N_times [OF ok N add s] ok N r show ?thesis
    by (simp add: after_call_proj at_call_proj runs_def)
qed

section \<open>Kernel: the lifecycle operations\<close>

lemmas kernel_simps =
  Kernel_init_def Kernel_add_module_def Kernel_add_loader_def Kernel_signal_def
  Kernel_listen_def Kernel_unlisten_def Kernel_setitem_def call_value_def run_later_def
  Kernel_process_queue_def call_method_def except_AttributeError_def Kernel_load_def
  Kernel_write_config_def config_call_def subscribers_def Let_def

lemma probe:
  "except_AttributeError (call_method k X meth) =
     (case modules k X of
        None \<Rightarrow> Inl (KeyError, k)
      | Some m \<Rightarrow>
          if meth \<in> set (methods m)
          then Inr (k\<lparr>trace := trace k @ [ModuleCall (module_id m) meth]\<rparr>)
          else Inr k)"
  by (simp add: except_AttributeError_def call_method_def split: option.splits)

text \<open>
  Claim C1 as stated fails for a name that is not a key of the module map: the lookup
  \<^verbatim>\<open>self.modules[thread_name]\<close> raises \<^verbatim>\<open>KeyError\<close>, which the handler for
  \<^verbatim>\<open>AttributeError\<close> does not catch, in each of the six operations.
\<close>

theorem lifecycle_unregistered_counterexample:
  "modules Kernel_init (PStr ''X'') = None
   \<and> Kernel_start Kernel_init (PStr ''X'') = Inl (KeyError, Kernel_init)
   \<and> Kernel_pause Kernel_init (PStr ''X'') = Inl (KeyError, Kernel_init)
   \<and> Kernel_resume Kernel_init (PStr ''X'') = Inl (KeyError, Kernel_init)
   \<and> Kernel_abort Kernel_init (PStr ''X'') = Inl (KeyError, Kernel_init)
   \<and> Kernel_stop Kernel_init (PStr ''X'') = Inl (KeyError, Kernel_init)
   \<and> Kernel_reset Kernel_init (PStr ''X'') = Inl (KeyError, Kernel_init)"
  by (simp add: Kernel_start_def Kernel_pause_def Kernel_resume_def Kernel_abort_def
      Kernel_stop_def Kernel_reset_def probe) (simp add: Kernel_init_def)

text \<open>
  Claim C1, amended: for every lifecycle operation among start, pause, resume, abort,
  stop and reset, and every name \<open>X\<close>: if \<open>X\<close> is registered and its module does not
  define the method, the operation returns normally and leaves the kernel as it was,
  without a call on any module; if \<open>X\<close> is registered and the module defines the
  method, that method is called and nothing else changes; if \<open>X\<close> is not a key of the
  module map, the operation raises \<^verbatim>\<open>KeyError\<close> and the kernel is as it was.
\<close>

theorem lifecycle_probe:
  assumes "(op, meth) \<in> set lifecycle_ops"
  shows "(modules k X = None \<longrightarrow> op k X = Inl (KeyError, k))
    \<and> (\<forall>m. modules k X = Some m \<and> meth \<notin> set (methods m) \<longrightarrow> op k X = Inr k)
    \<and> (\<forall>m. modules k X = Some m \<and> meth \<in> set (methods m) \<longrightarrow>
          op k X = Inr (k\<lparr>trace := trace k @ [ModuleCall (module_id m) meth]\<rparr>))"
proof -
  from assms have "op k X = except_AttributeError (call_method k X meth)"
    by (auto simp: lifecycle_ops_def Kernel_start_def Kernel_pause_def Kernel_resume_def
        Kernel_abort_def Kernel_stop_def Kernel_reset_def)
  then show ?thesis by (simp add: probe)
qed

text \<open>
  \<^verbatim>\<open>pause\<close> on a kernel whose only module defines \<^verbatim>\<open>start\<close> alone: a lookup error
  for an unregistered name, with the kernel as it was, and no effect for the registered
  module.
\<close>

theorem lifecycle_probe_witness:
  "(Kernel_pause, ''pause'') \<in> set lifecycle_ops
   \<and> modules one_module (PStr ''X'') = None
   \<and> Kernel_pause one_module (PStr ''X'') = Inl (KeyError, one_module)
   \<and> modules one_module (PStr ''M'') = Some \<lparr>module_id = 1, methods = [''start'']\<rparr>
   \<and> ''pause'' \<notin> set (methods \<lparr>module_id = 1, methods = [''start'']\<rparr>)
   \<and> Kernel_pause one_module (PStr ''M'') = Inr one_module"
proof -
  have a: "(Kernel_pause, ''pause'') \<in> set lifecycle_ops"
    by (simp add: lifecycle_ops_def)
  have b: "modules one_module (PStr ''X'') = None"
    "modules one_module (PStr ''M'') = Some \<lparr>module_id = 1, methods = [''start'']\<rparr>"
    "''pause'' \<notin> set (methods \<lparr>module_id = 1, methods = [''start'']\<rparr>)"
    by (simp_all add: one_module_def kernel_simps)
  from lifecycle_probe [OF a, of one_module "PStr ''X''"]
    lifecycle_probe [OF a, of one_module "PStr ''M''"] a b
  show ?thesis by simp
qed

section \<open>Kernel: the signal bus\<close>

















lemmas bus_simps =
  three_listeners_def after_flush_def once_subscribed_def twice_subscribed_def
  leaves_when_called_def signals_when_called_def kernel_simps deliveries_def
  pending_quiet_def quiet_def for_listeners.simps

text \<open>
  The loop of lines 196-198 over the live list, with a listener that calls back: in
  \<open>leaves_when_called\<close> the first listener of \<^verbatim>\<open>t\<close> unsubscribes itself when it is
  called. The flush calls it, the list shrinks to the second listener alone, and the
  iterator, now at index 1, stops: the second listener, still subscribed, is not
  called.
\<close>

lemma flush_skips_after_unlisten:
  "subscribers leaves_when_called (PStr ''t'')
      = [PCallback 1 [CallUnlistenSelf (PStr ''t'')], PFn 2]
   \<and> map_sum id (\<lambda>k'. (trace k', subscribers k' (PStr ''t''), last_message k' (PStr ''t'')))
        (Kernel_process_queue
           (Kernel_signal (Kernel_signal leaves_when_called (PStr ''t'') (PInt 1))
              (PStr ''t'') (PInt 2)))
       = Inr ([Invoke (PCallback 1 [CallUnlistenSelf (PStr ''t'')]) (PInt 2)], [PFn 2],
              Some (PInt 2))"
  by (simp add: bus_simps)




text \<open>
  Claim C6: \<^verbatim>\<open>listen(topic, fn)\<close> appends \<open>fn\<close> to the topic's listener list (a new
  list when the topic had none); when \<^verbatim>\<open>last_message\<close> holds a value \<open>v\<close> for the
  topic, \<open>fn\<close> is called with \<open>v\<close> within \<^verbatim>\<open>listen\<close>, with no flush; when it holds
  none, \<open>fn\<close> is not called.
\<close>

theorem listen_replays_last:
  "Kernel_listen k topic (PFn f) =
     Inr (k\<lparr>listeners := (listeners k)(topic \<mapsto> subscribers k topic @ [PFn f]),
           trace := trace k @ (case last_message k topic of
                                 None \<Rightarrow> []
                               | Some v \<Rightarrow> [Invoke (PFn f) v])\<rparr>)"
  by (simp add: Kernel_listen_def subscribers_def call_value_def Let_def
      split: option.splits)

text \<open>
  After 7 has been delivered for \<^verbatim>\<open>u\<close>: a new listener of \<^verbatim>\<open>u\<close> is called with 7
  at once, a new listener of \<^verbatim>\<open>t\<close> is not called.
\<close>

theorem listen_replays_last_witness:
  "last_message after_flush (PStr ''u'') = Some (PInt 7)
   \<and> last_message after_flush (PStr ''t'') = None
   \<and> map_sum id (\<lambda>k'. (listeners k' (PStr ''u''), trace k'))
        (Kernel_listen after_flush (PStr ''u'') (PFn 9))
       = Inr (Some [PFn 3, PFn 9], [Invoke (PFn 9) (PInt 7)])
   \<and> map_sum id (\<lambda>k'. (listeners k' (PStr ''t''), trace k'))
        (Kernel_listen after_flush (PStr ''t'') (PFn 9))
       = Inr (Some [PFn 9], [])"
proof -
  have a: "last_message after_flush (PStr ''u'') = Some (PInt 7)"
    "last_message after_flush (PStr ''t'') = None"
    "subscribers after_flush (PStr ''u'') = [PFn 3]"
    "subscribers after_flush (PStr ''t'') = []"
    "trace after_flush = []"
    by (simp_all add: bus_simps)
  from listen_replays_last [of after_flush "PStr ''u''" 9]
    listen_replays_last [of after_flush "PStr ''t''" 9] a
  show ?thesis by simp
qed

text \<open>
  Claim C7: \<^verbatim>\<open>unlisten\<close>, documented as \<^verbatim>\<open>unlisten(signal, function)\<close>, removes the
  first occurrence of the listener from the topic's list, and is a no-op that does not
  raise when the topic has no list or the listener is not in it. The code does not do
  this: its parameters are \<^verbatim>\<open>(listener, code)\<close>. Called in the documented order, also
  through \<^verbatim>\<open>kernel[signal, function] = None\<close>, it looks the function up as a topic,
  finds no list and leaves the subscribed listener in place. Called in the order of
  its parameters it removes the first occurrence, but raises \<^verbatim>\<open>ValueError\<close> for a
  listener that is not in the list.
\<close>

theorem unlisten_documented_order_keeps_listener:
  "listeners three_listeners (PStr ''t'') = Some [PFn 1, PFn 2]
   \<and> Kernel_unlisten three_listeners (PStr ''t'') (PFn 1) = Inr three_listeners
   \<and> Kernel_setitem three_listeners (PTuple [PStr ''t'', PFn 1]) PNone = Inr three_listeners
   \<and> Kernel_unlisten three_listeners (PFn 9) (PStr ''t'') = Inl ValueError
   \<and> map_sum id (\<lambda>k'. listeners k' (PStr ''t''))
        (Kernel_unlisten three_listeners (PFn 1) (PStr ''t'')) = Inr (Some [PFn 2])"
  by (simp add: bus_simps)

section \<open>Kernel: loading\<close>

lemma for_load_types_find:
  "for_load_types lower loader ts pathname g k =
     (case find (\<lambda>(l, extensions). endswith (lower pathname) extensions)
             (map (\<lambda>(description, extensions, mimetype). (loader, extensions)) ts) of
        None \<Rightarrow> None
      | Some (l, extensions) \<Rightarrow>
          Some (PBool True, k\<lparr>trace := trace k @ [LoaderLoad (loader_id l) pathname g]\<rparr>))"
  by (induction ts) auto

lemma find_append_case:
  "find P (xs @ ys) = (case find P xs of None \<Rightarrow> find P ys | Some x \<Rightarrow> Some x)"
  by (induction xs) auto

lemma for_loaders_find:
  "for_loaders lower ls pathname g k =
     (case find (\<lambda>(l, extensions). endswith (lower pathname) extensions)
             (concat (map (\<lambda>(loader_name, loader).
                             map (\<lambda>(description, extensions, mimetype). (loader, extensions))
                               (load_types loader)) ls)) of
        None \<Rightarrow> (PNone, k)
      | Some (l, extensions) \<Rightarrow>
          (PBool True, k\<lparr>trace := trace k @ [LoaderLoad (loader_id l) pathname g]\<rparr>))"
proof (induction ls)
  case Nil
  then show ?case by simp
next
  case (Cons p ls)
  obtain loader_name loader where p: "p = (loader_name, loader)" by (cases p)
  show ?case
    unfolding p
    by (simp add: for_load_types_find find_append_case Cons.IH split: option.splits)
qed

lemma lower_case_match:
  "map lower extensions = extensions \<Longrightarrow>
   spec_matches lower pathname extensions = endswith (lower pathname) extensions"
  by (simp add: spec_matches_def)

lemma update_new: "c \<notin> set (map fst q) \<Longrightarrow> AList.update c v q = q @ [(c, v)]"
  by (induction q) auto

lemmas load_simps =
  upper_loader_def two_loaders_def dxf_loader_def kernel_simps candidates_def
  spec_matches_def endswith_def str_endswith_def ascii_lower_def

text \<open>
  Claim C8 as stated fails: a loader that advertises the extension \<^verbatim>\<open>SVG\<close> matches
  \<^verbatim>\<open>x.SVG\<close> and \<^verbatim>\<open>x.svg\<close> when compared without regard to case, but
  \<^verbatim>\<open>Kernel.load\<close> invokes no loader for either and returns \<^verbatim>\<open>None\<close>.
\<close>

theorem load_upper_case_extension_counterexample:
  "candidates upper_loader
      = [(\<lparr>loader_id = 1, load_types = [(''Scalable Vector Graphics'', [''SVG''], ''image/svg+xml'')]\<rparr>,
          [''SVG''])]
   \<and> spec_matches ascii_lower ''x.SVG'' [''SVG'']
   \<and> spec_matches ascii_lower ''x.svg'' [''SVG'']
   \<and> Kernel_load ascii_lower upper_loader ''x.SVG'' PNone = (PNone, upper_loader)
   \<and> Kernel_load ascii_lower upper_loader ''x.svg'' PNone = (PNone, upper_loader)"
  by (simp add: load_simps)

text \<open>
  Claim C8, amended: \<^verbatim>\<open>Kernel.load(pathname)\<close> goes through the loaders in the order
  of the \<^verbatim>\<open>loaders\<close> dictionary and through each loader's advertised entries in
  order; the first entry one of whose extensions, taken as advertised, is a suffix of
  the lower-cased path name has its loader invoked as \<^verbatim>\<open>loader.load(pathname, group)\<close>
  with the path name as given, and \<^verbatim>\<open>load\<close> returns \<^verbatim>\<open>True\<close>; when there is no such
  entry, no loader is invoked and \<^verbatim>\<open>load\<close> returns \<^verbatim>\<open>None\<close>. Only the path name is
  lower-cased: when lower-casing changes none of the advertised extensions, the match
  is the case-insensitive one. The order of the dictionary is the order in which the
  names were first registered: \<^verbatim>\<open>add_loader\<close> under a new name puts the loader, with
  its entries, last, and under a name already registered puts it in the place of the
  loader of that name.
\<close>

theorem load_first_match:
  "Kernel_load lower k pathname g =
     (case find (\<lambda>(loader, extensions). endswith (lower pathname) extensions) (candidates k) of
        None \<Rightarrow> (PNone, k)
      | Some (loader, extensions) \<Rightarrow>
          (PBool True, k\<lparr>trace := trace k @ [LoaderLoad (loader_id loader) pathname g]\<rparr>))
   \<and> (list_all (\<lambda>(loader, extensions). map lower extensions = extensions) (candidates k) \<longrightarrow>
        find (\<lambda>(loader, extensions). endswith (lower pathname) extensions) (candidates k)
          = find (\<lambda>(loader, extensions). spec_matches lower pathname extensions) (candidates k))
   \<and> map fst (loaders (Kernel_add_loader k name l))
        = (if name \<in> set (map fst (loaders k)) then map fst (loaders k)
           else map fst (loaders k) @ [name])
   \<and> map_of (loaders (Kernel_add_loader k name l)) = (map_of (loaders k))(name \<mapsto> l)
   \<and> (name \<notin> set (map fst (loaders k)) \<longrightarrow>
        candidates (Kernel_add_loader k name l)
          = candidates k
            @ map (\<lambda>(description, extensions, mimetype). (l, extensions)) (load_types l))"
proof (intro conjI impI)
  show "Kernel_load lower k pathname g =
     (case find (\<lambda>(loader, extensions). endswith (lower pathname) extensions) (candidates k) of
        None \<Rightarrow> (PNone, k)
      | Some (loader, extensions) \<Rightarrow>
          (PBool True, k\<lparr>trace := trace k @ [LoaderLoad (loader_id loader) pathname g]\<rparr>))"
    unfolding Kernel_load_def candidates_def by (rule for_loaders_find)
next
  assume "list_all (\<lambda>(loader, extensions). map lower extensions = extensions) (candidates k)"
  then have "\<And>x. x \<in> set (candidates k) \<Longrightarrow>
      (case x of (loader, extensions) \<Rightarrow> endswith (lower pathname) extensions)
        = (case x of (loader, extensions) \<Rightarrow> spec_matches lower pathname extensions)"
    by (auto simp: list_all_iff lower_case_match)
  then show "find (\<lambda>(loader, extensions). endswith (lower pathname) extensions) (candidates k)
          = find (\<lambda>(loader, extensions). spec_matches lower pathname extensions) (candidates k)"
    by (intro find_cong refl)
next
  show "map fst (loaders (Kernel_add_loader k name l))
        = (if name \<in> set (map fst (loaders k)) then map fst (loaders k)
           else map fst (loaders k) @ [name])"
    using update_keys[of name l "loaders k"] by (simp add: Kernel_add_loader_def)
next
  show "map_of (loaders (Kernel_add_loader k name l)) = (map_of (loaders k))(name \<mapsto> l)"
    using update_conv'[of name l "loaders k"] by (simp add: Kernel_add_loader_def)
next
  assume "name \<notin> set (map fst (loaders k))"
  then have "loaders (Kernel_add_loader k name l) = loaders k @ [(name, l)]"
    by (simp add: Kernel_add_loader_def update_new)
  then show "candidates (Kernel_add_loader k name l)
          = candidates k
            @ map (\<lambda>(description, extensions, mimetype). (l, extensions)) (load_types l)"
    by (simp add: candidates_def)
qed

text \<open>
  Two loaders with lower-case extensions: \<^verbatim>\<open>Photo.JPEG\<close> goes to the second loader,
  with the path name as given; \<^verbatim>\<open>notes.txt\<close> goes to none. A loader registered
  under the new name \<^verbatim>\<open>dxf\<close> comes last; registered under the name \<^verbatim>\<open>svg\<close>, which
  is taken, it comes first, in the place of the loader it replaces.
\<close>

theorem load_first_match_witness:
  "list_all (\<lambda>(loader, extensions). map ascii_lower extensions = extensions)
     (candidates two_loaders)
   \<and> map fst (loaders two_loaders) = [PStr ''svg'', PStr ''image'']
   \<and> Kernel_load ascii_lower two_loaders ''Photo.JPEG'' PNone
       = (PBool True, two_loaders\<lparr>trace := [LoaderLoad 2 ''Photo.JPEG'' PNone]\<rparr>)
   \<and> Kernel_load ascii_lower two_loaders ''notes.txt'' PNone = (PNone, two_loaders)
   \<and> PStr ''dxf'' \<notin> set (map fst (loaders two_loaders))
   \<and> map fst (loaders (Kernel_add_loader two_loaders (PStr ''dxf'') dxf_loader))
       = [PStr ''svg'', PStr ''image'', PStr ''dxf'']
   \<and> map fst (loaders (Kernel_add_loader two_loaders (PStr ''svg'') dxf_loader))
       = [PStr ''svg'', PStr ''image'']
   \<and> map_of (loaders (Kernel_add_loader two_loaders (PStr ''svg'') dxf_loader)) (PStr ''svg'')
       = Some dxf_loader"
proof -
  have a: "list_all (\<lambda>(loader, extensions). map ascii_lower extensions = extensions)
      (candidates two_loaders)"
    by (simp add: load_simps)
  have b: "map fst (loaders two_loaders) = [PStr ''svg'', PStr ''image'']"
    "trace two_loaders = []"
    by (simp_all add: load_simps)
  have c: "find (\<lambda>(loader, extensions). spec_matches ascii_lower ''Photo.JPEG'' extensions)
        (candidates two_loaders)
      = Some (\<lparr>loader_id = 2, load_types = [(''Portable Network Graphics'', [''png''], ''image/png''),
                                    (''JPEG'', [''jpg'', ''jpeg''], ''image/jpeg'')]\<rparr>,
              [''jpg'', ''jpeg''])"
    "find (\<lambda>(loader, extensions). spec_matches ascii_lower ''notes.txt'' extensions)
        (candidates two_loaders) = None"
    by (simp_all add: load_simps)
  from load_first_match [of ascii_lower two_loaders "''Photo.JPEG''" PNone "PStr ''dxf''" dxf_loader]
    load_first_match [of ascii_lower two_loaders "''notes.txt''" PNone "PStr ''svg''" dxf_loader]
    a b c
  show ?thesis by simp
qed

section \<open>Kernel: writing settings\<close>

text \<open>
  Claim C10: for every key and every boolean \<open>b\<close>, \<^verbatim>\<open>write_config(key, b)\<close> stores
  \<open>b\<close> through \<^verbatim>\<open>config.WriteInt\<close> (given a configuration store), because the test
  for \<^verbatim>\<open>int\<close> comes before the test for \<^verbatim>\<open>bool\<close> and every \<^verbatim>\<open>bool\<close> is an
  \<^verbatim>\<open>int\<close>; for no key and value does \<^verbatim>\<open>write_config\<close> call \<^verbatim>\<open>config.WriteBool\<close>.
\<close>

theorem write_config_bool_as_int:
  "(config k \<longrightarrow>
      Kernel_write_config k key (PBool b) = Inr (k\<lparr>trace := trace k @ [WriteInt key (PBool b)]\<rparr>))
   \<and> Kernel_write_config k key v \<noteq> Inr (k\<lparr>trace := trace k @ [WriteBool key' v']\<rparr>)
   \<and> (isinstance v T_bool \<longrightarrow> isinstance v T_int)"
proof (intro conjI)
  show "config k \<longrightarrow>
      Kernel_write_config k key (PBool b) = Inr (k\<lparr>trace := trace k @ [WriteInt key (PBool b)]\<rparr>)"
    by (simp add: Kernel_write_config_def config_call_def)
  have neq: "k \<noteq> k\<lparr>trace := trace k @ [e]\<rparr>" for e
  proof
    assume "k = k\<lparr>trace := trace k @ [e]\<rparr>"
    then have "trace k = trace (k\<lparr>trace := trace k @ [e]\<rparr>)" by simp
    then show False by simp
  qed
  have upd: "(k\<lparr>trace := trace k @ [e]\<rparr> = k\<lparr>trace := trace k @ [e']\<rparr>) = (e = e')" for e e'
  proof
    assume "k\<lparr>trace := trace k @ [e]\<rparr> = k\<lparr>trace := trace k @ [e']\<rparr>"
    then have "trace (k\<lparr>trace := trace k @ [e]\<rparr>) = trace (k\<lparr>trace := trace k @ [e']\<rparr>)"
      by simp
    then show "e = e'" by simp
  qed simp
  show "Kernel_write_config k key v \<noteq> Inr (k\<lparr>trace := trace k @ [WriteBool key' v']\<rparr>)"
    by (cases v) (simp_all add: Kernel_write_config_def config_call_def neq upd)
  show "isinstance v T_bool \<longrightarrow> isinstance v T_int"
    by (cases v) simp_all
qed

text \<open>Writing \<^verbatim>\<open>True\<close> to a kernel that has a configuration store.\<close>

theorem write_config_bool_as_int_witness:
  "config with_config
   \<and> Kernel_write_config with_config (PStr ''autostart'') (PBool True)
       = Inr (with_config\<lparr>trace := [WriteInt (PStr ''autostart'') (PBool True)]\<rparr>)
   \<and> isinstance (PBool True) T_bool \<and> isinstance (PBool True) T_int"
proof -
  have a: "config with_config" "trace with_config = []"
    by (simp_all add: with_config_def Kernel_init_def)
  from write_config_bool_as_int [of with_config "PStr ''autostart''" True "PBool True"] a
  show ?thesis by simp
qed

end
